theory Spec2Isabelle
  imports Main "HOL-Library.Word"
begin

section \<open>The changelog generator of pyRevit (dev/\_changelog.py)\<close>

text \<open>
  The module parses the text of a \<^verbatim>\<open>git log\<close> call into commits, looks each commit's
  ticket up at the issue tracker, groups the commits by the subsystem labels of their
  tickets and prints a markdown report. This theory embeds the module function by function.

  Python strings are modelled as \<^typ>\<open>string\<close>, one \<^typ>\<open>char\<close> per code point, so
  the model covers text whose code points are below 256. What the module takes from outside
  is a parameter of the model: the issue tracker (\<^verbatim>\<open>github.get_ticket\<close>), the builtin
  \<^verbatim>\<open>hash\<close> of a string, the builtin \<^verbatim>\<open>str.format\<close>, the build version and the
  installer names of \<^verbatim>\<open>scripts.configs\<close>, and the text the git calls return.
\<close>

subsection \<open>Exceptions\<close>

datatype py_error = IndexError | KeyError | ValueError | RequestError | FormatNotModelled

subsection \<open>String operations of Python\<close>

text \<open>\<^verbatim>\<open>s.split(sep)\<close> for a separator of one character: never an empty list.\<close>

fun str_split :: "char \<Rightarrow> string \<Rightarrow> string list" where
  "str_split sep [] = [[]]"
| "str_split sep (c # cs) =
     (if c = sep then [] # str_split sep cs
      else (case str_split sep cs of [] \<Rightarrow> [[c]] | l # ls \<Rightarrow> (c # l) # ls))"

text \<open>\<^verbatim>\<open>s.split(sep, 1)\<close>: split at the first separator only.\<close>

definition str_split1 :: "char \<Rightarrow> string \<Rightarrow> string list" where
  "str_split1 sep s =
     (if sep \<in> set s then [takeWhile (\<lambda>c. c \<noteq> sep) s, tl (dropWhile (\<lambda>c. c \<noteq> sep) s)]
      else [s])"

text \<open>\<^verbatim>\<open>s.startswith(p)\<close> and \<^verbatim>\<open>sub in s\<close>.\<close>

fun startswith :: "string \<Rightarrow> string \<Rightarrow> bool" where
  "startswith s [] = True"
| "startswith [] (p # ps) = False"
| "startswith (c # cs) (p # ps) = (c = p \<and> startswith cs ps)"

fun str_contains :: "string \<Rightarrow> string \<Rightarrow> bool" where
  "str_contains sub [] = (sub = [])"
| "str_contains sub (c # cs) = (startswith (c # cs) sub \<or> str_contains sub cs)"

text \<open>\<^verbatim>\<open>s.replace(a, new)\<close> for a one-character \<^verbatim>\<open>a\<close>.\<close>

definition str_replace :: "char \<Rightarrow> string \<Rightarrow> string \<Rightarrow> string" where
  "str_replace a new s = concat (map (\<lambda>c. if c = a then new else [c]) s)"

text \<open>The text an f-string puts for an optional string: \<^verbatim>\<open>None\<close> prints as its name.\<close>

definition str_of_optional :: "string option \<Rightarrow> string" where
  "str_of_optional v = (case v of None \<Rightarrow> ''None'' | Some s \<Rightarrow> s)"

subsection \<open>Regular expressions: the backtracking matcher of \<^verbatim>\<open>re\<close>\<close>

text \<open>
  The three patterns of the module use single characters, the classes \<^verbatim>\<open>.\<close>,
  \<^verbatim>\<open>\d\<close> and \<^verbatim>\<open>\s\<close>, the repetitions \<^verbatim>\<open>*\<close>, \<^verbatim>\<open>+\<close> and \<^verbatim>\<open>+?\<close> of one
  character class, an optional group, concatenation and capture groups. \<open>run\<close> lists
  every way a pattern can match at the start of the text, as the rest of the text and the
  captures, in the order the backtracking matcher tries them: a greedy repetition offers
  its longest match first, a lazy one its shortest. The first entry is the match that
  \<^verbatim>\<open>re.match\<close> returns.
\<close>

definition is_digit :: "char \<Rightarrow> bool" where
  "is_digit c = (c \<in> set ''0123456789'')"

definition is_space :: "char \<Rightarrow> bool" where
  "is_space c = (c \<in> set [CHR 0x09, CHR 0x0A, CHR 0x0B, CHR 0x0C, CHR 0x0D, CHR 0x1C,
                            CHR 0x1D, CHR 0x1E, CHR 0x1F, CHR 0x20, CHR 0x85, CHR 0xA0])"

datatype cclass = CLit char | CAny | CDigit | CSpace

fun cmatch :: "cclass \<Rightarrow> char \<Rightarrow> bool" where
  "cmatch (CLit a) c = (c = a)"
| "cmatch CAny c = (c \<noteq> CHR 0x0A)"
| "cmatch CDigit c = is_digit c"
| "cmatch CSpace c = is_space c"

datatype regex =
    One cclass
  | Greedy_Star cclass
  | Greedy_Plus cclass
  | Lazy_Plus cclass
  | Optional regex
  | Cat regex regex
  | Capture nat regex

type_synonym groups = "string option list"

fun star_greedy :: "cclass \<Rightarrow> string \<Rightarrow> string list" where
  "star_greedy k [] = [[]]"
| "star_greedy k (c # cs) = (if cmatch k c then star_greedy k cs else []) @ [c # cs]"

fun star_lazy :: "cclass \<Rightarrow> string \<Rightarrow> string list" where
  "star_lazy k [] = [[]]"
| "star_lazy k (c # cs) = (c # cs) # (if cmatch k c then star_lazy k cs else [])"

fun run :: "regex \<Rightarrow> string \<times> groups \<Rightarrow> (string \<times> groups) list" where
  "run (One k) (s, g) =
     (case s of [] \<Rightarrow> [] | c # cs \<Rightarrow> if cmatch k c then [(cs, g)] else [])"
| "run (Greedy_Star k) (s, g) = map (\<lambda>r. (r, g)) (star_greedy k s)"
| "run (Greedy_Plus k) (s, g) =
     (case s of [] \<Rightarrow> []
      | c # cs \<Rightarrow> if cmatch k c then map (\<lambda>r. (r, g)) (star_greedy k cs) else [])"
| "run (Lazy_Plus k) (s, g) =
     (case s of [] \<Rightarrow> []
      | c # cs \<Rightarrow> if cmatch k c then map (\<lambda>r. (r, g)) (star_lazy k cs) else [])"
| "run (Optional r) (s, g) = run r (s, g) @ [(s, g)]"
| "run (Cat r1 r2) (s, g) = concat (map (run r2) (run r1 (s, g)))"
| "run (Capture i r) (s, g) =
     map (\<lambda>(s', g'). (s', g'[i := Some (take (length s - length s') s)])) (run r (s, g))"

text \<open>
  \<^verbatim>\<open>re.match(r, s)\<close> for a pattern of \<open>n\<close> groups: the captures of the first match at
  the start of \<open>s\<close> (what \<^verbatim>\<open>m.groups()\<close> returns), or \<open>None\<close>.
  \<^verbatim>\<open>re.search\<close> tries every start from left to right.
\<close>

definition re_match :: "regex \<Rightarrow> nat \<Rightarrow> string \<Rightarrow> groups option" where
  "re_match r n s =
     (case run r (s, replicate n None) of [] \<Rightarrow> None | (rest, g) # _ \<Rightarrow> Some g)"

fun re_search :: "regex \<Rightarrow> nat \<Rightarrow> string \<Rightarrow> groups option" where
  "re_search r n [] = re_match r n []"
| "re_search r n (c # cs) =
     (case re_match r n (c # cs) of Some g \<Rightarrow> Some g | None \<Rightarrow> re_search r n cs)"

text \<open>\<^verbatim>\<open>.*#(\d+).*\<close>\<close>

definition ticket_re :: regex where
  "ticket_re = Cat (Greedy_Star CAny) (Cat (One (CLit CHR ''#''))
                 (Cat (Capture 0 (Greedy_Plus CDigit)) (Greedy_Star CAny)))"

text \<open>\<^verbatim>\<open>\-\s*\[\s*\]\s+(.+)\<close>\<close>

definition todo_re :: regex where
  "todo_re = Cat (One (CLit CHR ''-'')) (Cat (Greedy_Star CSpace) (Cat (One (CLit CHR ''[''))
               (Cat (Greedy_Star CSpace) (Cat (One (CLit CHR '']''))
               (Cat (Greedy_Plus CSpace) (Capture 0 (Greedy_Plus CAny)))))))"

text \<open>\<^verbatim>\<open>.*\[(.+?)(->(.+?))?\].*\<close>\<close>

definition aspect_re :: regex where
  "aspect_re = Cat (Greedy_Star CAny) (Cat (One (CLit CHR ''[''))
                 (Cat (Capture 0 (Lazy_Plus CAny))
                 (Cat (Optional (Capture 1 (Cat (One (CLit CHR ''-'')) (Cat (One (CLit CHR ''>''))
                                   (Capture 2 (Lazy_Plus CAny))))))
                 (Cat (One (CLit CHR '']'')) (Greedy_Star CAny)))))"

subsection \<open>Labels, tickets and aspects\<close>

record LabelInfo =
  name :: string
  description :: string

record TicketInfo =
  title :: string
  url :: string
  labels :: "LabelInfo list"

record ChangeAspect =
  label :: LabelInfo
  aspect_type :: "string option"
  aspect_pattern :: string

definition DefaultPattern :: string where
  "DefaultPattern = ''- Resolved {ticket}: {title}''"

text \<open>\<^verbatim>\<open>ChangeAspect.__init__\<close>\<close>

definition ChangeAspect_init :: "LabelInfo \<Rightarrow> ChangeAspect" where
  "ChangeAspect_init l =
     (case re_match aspect_re 3 (description l) of
        None \<Rightarrow> \<lparr>label = l, aspect_type = None, aspect_pattern = DefaultPattern\<rparr>
      | Some g \<Rightarrow>
          (case g ! 2 of
             None \<Rightarrow> \<lparr>label = l, aspect_type = g ! 0, aspect_pattern = DefaultPattern\<rparr>
           | Some p \<Rightarrow>
               if p \<noteq> [] then \<lparr>label = l, aspect_type = g ! 0, aspect_pattern = ''- '' @ p\<rparr>
               else \<lparr>label = l, aspect_type = g ! 0, aspect_pattern = DefaultPattern\<rparr>))"

text \<open>
  \<^verbatim>\<open>ChangeAspect.__hash__\<close> is the hash of the label's name, and
  \<^verbatim>\<open>ChangeAspect.__eq__\<close> compares the hashes. The builtin hash of a string is a
  parameter: a function into the 64-bit integers.
\<close>

definition ChangeAspect_hash :: "(string \<Rightarrow> 64 word) \<Rightarrow> ChangeAspect \<Rightarrow> 64 word" where
  "ChangeAspect_hash hash x = hash (name (label x))"

definition ChangeAspect_eq :: "(string \<Rightarrow> 64 word) \<Rightarrow> ChangeAspect \<Rightarrow> ChangeAspect \<Rightarrow> bool" where
  "ChangeAspect_eq hash x y = (ChangeAspect_hash hash x = ChangeAspect_hash hash y)"

definition aspect_name :: "ChangeAspect \<Rightarrow> string" where
  "aspect_name a = name (label a)"

definition pattern :: "ChangeAspect \<Rightarrow> string" where
  "pattern a = aspect_pattern a"

subsection \<open>Changes\<close>

record Change =
  commit_hash :: string
  commit_ticket :: "string option"
  commit_todos :: "string list"
  ticketdata :: "TicketInfo option"

text \<open>\<^verbatim>\<open>Change.find_ticket\<close>\<close>

definition find_ticket :: "string \<Rightarrow> string option" where
  "find_ticket message =
     (case re_match ticket_re 1 message of Some g \<Rightarrow> g ! 0 | None \<Rightarrow> None)"

text \<open>
  \<^verbatim>\<open>Change.find_todos\<close>. The group of the pattern is not optional, so a match always
  holds its text.
\<close>

definition find_todos :: "string \<Rightarrow> string list" where
  "find_todos comments =
     concat (map (\<lambda>cline. case re_search todo_re 1 cline of
                             None \<Rightarrow> []
                           | Some g \<Rightarrow> (case g ! 0 of None \<Rightarrow> [] | Some t \<Rightarrow> [t]))
                 (str_split CHR 0x0A comments))"

text \<open>
  \<^verbatim>\<open>Change.__init__\<close>. The ticket is fetched when \<^verbatim>\<open>fetch_info and self._commit_ticket\<close>
  is true, that is, when a ticket id was found and is not the empty string. The tracker
  returns ticket data, a false value (\<open>None\<close>) or raises.
\<close>

definition Change_init ::
  "(string \<Rightarrow> py_error + TicketInfo option) \<Rightarrow> string \<Rightarrow> string \<Rightarrow> string \<Rightarrow> bool
     \<Rightarrow> py_error + Change" where
  "Change_init get_ticket chash message comments fetch_info =
     (let tk = find_ticket message; todos = find_todos comments
      in case tk of
           None \<Rightarrow> Inr \<lparr>commit_hash = chash, commit_ticket = tk, commit_todos = todos,
                        ticketdata = None\<rparr>
         | Some n \<Rightarrow>
             if fetch_info \<and> n \<noteq> [] then
               (case get_ticket n of
                  Inl e \<Rightarrow> Inl e
                | Inr d \<Rightarrow> Inr \<lparr>commit_hash = chash, commit_ticket = tk, commit_todos = todos,
                                ticketdata = d\<rparr>)
             else Inr \<lparr>commit_hash = chash, commit_ticket = tk, commit_todos = todos,
                       ticketdata = None\<rparr>)"

text \<open>The properties of a change.\<close>

definition ticket :: "Change \<Rightarrow> string" where
  "ticket c = ''#'' @ str_of_optional (commit_ticket c)"

definition Change_url :: "Change \<Rightarrow> string" where
  "Change_url c = (case ticketdata c of Some t \<Rightarrow> url t | None \<Rightarrow> [])"

definition Change_title :: "Change \<Rightarrow> string" where
  "Change_title c = (case ticketdata c of Some t \<Rightarrow> title t | None \<Rightarrow> [])"

definition subsystems :: "Change \<Rightarrow> ChangeAspect list" where
  "subsystems c =
     (case ticketdata c of
        Some t \<Rightarrow> map ChangeAspect_init
                   (filter (\<lambda>x. str_contains ''[subsystem'' (description x)) (labels t))
      | None \<Rightarrow> [])"

definition classes :: "Change \<Rightarrow> ChangeAspect list" where
  "classes c =
     (case ticketdata c of
        Some t \<Rightarrow> map ChangeAspect_init
                   (filter (\<lambda>x. str_contains ''[class'' (description x)) (labels t))
      | None \<Rightarrow> [])"

definition is_highlighted :: "Change \<Rightarrow> bool" where
  "is_highlighted c =
     (case ticketdata c of Some t \<Rightarrow> ''Highlight'' \<in> set (map name (labels t)) | None \<Rightarrow> False)"

definition is_priority :: "Change \<Rightarrow> bool" where
  "is_priority c =
     (case ticketdata c of Some t \<Rightarrow> ''Prioritize'' \<in> set (map name (labels t)) | None \<Rightarrow> False)"

text \<open>
  \<^verbatim>\<open>Change.__str__\<close>. \<open>fmt\<close> is \<^verbatim>\<open>str.format\<close> with keyword arguments: it returns
  the text or raises.
\<close>

type_synonym formatter = "string \<Rightarrow> (string \<times> string) list \<Rightarrow> py_error + string"

definition Change_str :: "formatter \<Rightarrow> Change \<Rightarrow> py_error + string" where
  "Change_str fmt c =
     (let message =
        (case classes c of
           [] \<Rightarrow> DefaultPattern
         | first_class # _ \<Rightarrow>
             if pattern first_class \<noteq> [] then pattern first_class else DefaultPattern)
      in fmt message [(''ticket'', ticket c), (''url'', Change_url c), (''title'', Change_title c)])"

subsection \<open>The change parser\<close>

text \<open>
  The inner loop of \<^verbatim>\<open>_find_changes\<close>: from the line \<open>cline\<close> at index \<open>idx\<close> it appends
  lines to \<open>ccmt\<close> until one starts with \<^verbatim>\<open>/\<close> or the lines end. It returns the comment
  and the index it stopped at.
\<close>

function comment_loop :: "string list \<Rightarrow> nat \<Rightarrow> string \<Rightarrow> string \<Rightarrow> string \<times> nat" where
  "comment_loop changelines idx ccmt cline =
     (if \<not> startswith cline ''/'' then
        (let ccmt' = ccmt @ cline; idx' = idx + 1
         in if idx' \<ge> length changelines then (ccmt', idx')
            else comment_loop changelines idx' ccmt' (changelines ! idx'))
      else (ccmt, idx))"
  by pat_completeness auto
termination
  by (relation "measure (\<lambda>(changelines, idx, ccmt, cline). length changelines - idx)") auto

declare comment_loop.simps [simp del]

lemma comment_loop_idx: "idx \<le> snd (comment_loop changelines idx ccmt cline)"
proof (induction changelines idx ccmt cline rule: comment_loop.induct)
  case (1 changelines idx ccmt cline)
  show ?case
  proof (cases "\<not> startswith cline ''/'' \<and> \<not> idx + 1 \<ge> length changelines")
    case True
    then have "idx + 1 \<le> snd (comment_loop changelines (idx + 1) (ccmt @ cline)
                                  (changelines ! (idx + 1)))"
      using "1.IH" [OF _ refl refl] by simp
    moreover have "comment_loop changelines idx ccmt cline =
        comment_loop changelines (idx + 1) (ccmt @ cline) (changelines ! (idx + 1))"
      using True by (subst comment_loop.simps) (simp add: Let_def)
    ultimately show ?thesis by simp
  next
    case False
    then show ?thesis by (subst comment_loop.simps) (auto simp: Let_def)
  qed
qed

text \<open>
  The outer loop. Reading \<^verbatim>\<open>changelines[idx]\<close> right after a header line raises
  IndexError when the header is the last line; an exception of the ticket fetch inside
  \<^verbatim>\<open>Change(...)\<close> ends the loop as well.
\<close>

function find_changes_loop ::
  "(string \<Rightarrow> py_error + TicketInfo option) \<Rightarrow> bool \<Rightarrow> string list \<Rightarrow> nat \<Rightarrow> Change list
     \<Rightarrow> py_error + Change list" where
  "find_changes_loop get_ticket fetch_info changelines idx changes =
     (if idx < length changelines then
        (let cline = changelines ! idx; parts = str_split1 CHR '' '' cline
         in if length parts \<noteq> 2 then
              find_changes_loop get_ticket fetch_info changelines (idx + 1) changes
            else
              (let chash = parts ! 0; cmsg = parts ! 1; idx1 = idx + 1
               in if idx1 \<ge> length changelines then Inl IndexError
                  else
                    (case comment_loop changelines idx1 [] (changelines ! idx1) of
                       (ccmt, idx2) \<Rightarrow>
                         (case Change_init get_ticket chash cmsg ccmt fetch_info of
                            Inl e \<Rightarrow> Inl e
                          | Inr c \<Rightarrow>
                              find_changes_loop get_ticket fetch_info changelines (idx2 + 1)
                                (changes @ [c])))))
      else Inr changes)"
  by pat_completeness auto
termination
proof (relation "measure (\<lambda>(get_ticket, fetch_info, changelines, idx, changes).
                            length changelines - idx)", goal_cases)
  case 1
  show ?case by simp
next
  case 2
  then show ?case by simp
next
  case (3 get_ticket fetch_info changelines idx changes cline parts chash cmsg idx1 ccmt idx2 c)
  have "idx1 \<le> snd (comment_loop changelines idx1 [] (changelines ! idx1))"
    by (rule comment_loop_idx)
  with 3 show ?case by (simp add: prod_eq_iff)
qed

declare find_changes_loop.simps [simp del]

text \<open>\<^verbatim>\<open>_find_changes\<close>\<close>

definition find_changes ::
  "(string \<Rightarrow> py_error + TicketInfo option) \<Rightarrow> string \<Rightarrow> bool \<Rightarrow> py_error + Change list" where
  "find_changes get_ticket gitlog_report fetch_info =
     find_changes_loop get_ticket fetch_info (str_split CHR 0x0A gitlog_report) 0 []"

subsection \<open>The changelog reporter\<close>

text \<open>\<^verbatim>\<open>_header\<close> prints one line; the model returns it.\<close>

definition header :: "string \<Rightarrow> nat \<Rightarrow> string" where
  "header txt level = replicate level CHR ''#'' @ '' '' @ txt"

text \<open>
  \<^verbatim>\<open>changes_by_subsystem\<close> is a \<^verbatim>\<open>defaultdict(list)\<close> keyed by aspects. A dictionary
  keeps its keys in insertion order and finds a key by \<^verbatim>\<open>__hash__\<close> and \<^verbatim>\<open>__eq__\<close>, so
  the model is an association list searched with \<open>ChangeAspect_eq\<close>.
  \<open>dict_append d k v\<close> is \<^verbatim>\<open>d[k].append(v)\<close>: a key that is not found is added last, with
  the list of \<open>v\<close> alone.
\<close>

type_synonym aspect_dict = "(ChangeAspect \<times> Change list) list"

fun dict_append ::
  "(string \<Rightarrow> 64 word) \<Rightarrow> aspect_dict \<Rightarrow> ChangeAspect \<Rightarrow> Change \<Rightarrow> aspect_dict" where
  "dict_append hash [] k v = [(k, [v])]"
| "dict_append hash ((k', vs) # d) k v =
     (if ChangeAspect_eq hash k' k then (k', vs @ [v]) # d
      else (k', vs) # dict_append hash d k v)"

text \<open>The body of the grouping loop of \<^verbatim>\<open>report_changelog\<close>, and the loop.\<close>

definition group_change :: "(string \<Rightarrow> 64 word) \<Rightarrow> aspect_dict \<Rightarrow> Change \<Rightarrow> aspect_dict" where
  "group_change hash d change =
     (if ticket change = [] then d
      else foldl (\<lambda>d' subsystem. dict_append hash d' subsystem change) d (subsystems change))"

definition group_changes :: "(string \<Rightarrow> 64 word) \<Rightarrow> Change list \<Rightarrow> aspect_dict" where
  "group_changes hash all_changes = foldl (group_change hash) [] all_changes"

text \<open>
  Printing threads the lines printed so far. \<^verbatim>\<open>print(change)\<close> calls
  \<^verbatim>\<open>Change.__str__\<close>; when that raises, the lines printed before stay printed and the
  exception ends the report.
\<close>

type_synonym printed = "string list \<times> py_error option"

fun print_changes :: "formatter \<Rightarrow> string list \<Rightarrow> Change list \<Rightarrow> printed" where
  "print_changes fmt out [] = (out, None)"
| "print_changes fmt out (change # rest) =
     (case Change_str fmt change of
        Inl e \<Rightarrow> (out, Some e)
      | Inr line \<Rightarrow> print_changes fmt (out @ [line]) rest)"

fun print_groups :: "formatter \<Rightarrow> string list \<Rightarrow> aspect_dict \<Rightarrow> printed" where
  "print_groups fmt out [] = (out, None)"
| "print_groups fmt out ((subsystem, subsystem_changes) # rest) =
     (case print_changes fmt (out @ [header (aspect_name subsystem) 3]) subsystem_changes of
        (out', Some e) \<Rightarrow> (out', Some e)
      | (out', None) \<Rightarrow> print_groups fmt out' rest)"

text \<open>\<^verbatim>\<open>report_changelog\<close> from the parsed changes on.\<close>

definition report_changes :: "(string \<Rightarrow> 64 word) \<Rightarrow> formatter \<Rightarrow> Change list \<Rightarrow> printed" where
  "report_changes hash fmt all_changes =
     (let changes_by_subsystem = group_changes hash all_changes
      in case print_changes fmt [header ''Highlights'' 1] (filter is_highlighted all_changes) of
           (out, Some e) \<Rightarrow> (out, Some e)
         | (out, None) \<Rightarrow> print_groups fmt (out @ [header ''Changes'' 1]) changes_by_subsystem)"

text \<open>
  \<^verbatim>\<open>report_changelog\<close>, given the text that \<^verbatim>\<open>git log\<close> returned for the target tag.
\<close>

definition report_changelog ::
  "(string \<Rightarrow> py_error + TicketInfo option) \<Rightarrow> (string \<Rightarrow> 64 word) \<Rightarrow> formatter \<Rightarrow> string
     \<Rightarrow> printed" where
  "report_changelog get_ticket hash fmt gitlog_report =
     (case find_changes get_ticket gitlog_report True of
        Inl e \<Rightarrow> ([], Some e)
      | Inr all_changes \<Rightarrow> report_changes hash fmt all_changes)"

subsection \<open>The release notes\<close>

text \<open>The four installer names of \<^verbatim>\<open>scripts.configs\<close>: format templates.\<close>

record configs =
  PYREVIT_INSTALLER_NAME :: string
  PYREVIT_ADMIN_INSTALLER_NAME :: string
  PYREVIT_CLI_INSTALLER_NAME :: string
  PYREVIT_CLI_ADMIN_INSTALLER_NAME :: string

definition build_version_urlsafe :: "string \<Rightarrow> string" where
  "build_version_urlsafe build_version = str_replace CHR ''+'' ''%2B'' build_version"

definition base_url :: "string \<Rightarrow> string" where
  "base_url build_version =
     ''https://github.com/eirannejad/pyRevit/'' @ ''releases/download/v''
       @ build_version_urlsafe build_version @ ''/''"

text \<open>
  The address of one installer: \<^verbatim>\<open>base_url + NAME.format(version=build_version) + ".exe"\<close>.
\<close>

definition installer_url :: "formatter \<Rightarrow> string \<Rightarrow> string \<Rightarrow> py_error + string" where
  "installer_url fmt build_version installer_name =
     (case fmt installer_name [(''version'', build_version)] of
        Inl e \<Rightarrow> Inl e
      | Inr installer \<Rightarrow> Inr (base_url build_version @ installer @ ''.exe''))"

text \<open>One bullet of the downloads section: the installer's address, then the bullet's text.\<close>

definition download_line :: "formatter \<Rightarrow> string \<Rightarrow> string \<Rightarrow> string \<Rightarrow> py_error + string" where
  "download_line fmt build_version installer_name bullet =
     (case installer_url fmt build_version installer_name of
        Inl e \<Rightarrow> Inl e
      | Inr u \<Rightarrow> fmt bullet [(''version'', build_version), (''url'', u)])"

fun print_downloads ::
  "formatter \<Rightarrow> string \<Rightarrow> string list \<Rightarrow> (string \<times> string) list \<Rightarrow> printed" where
  "print_downloads fmt build_version out [] = (out, None)"
| "print_downloads fmt build_version out ((installer_name, bullet) # rest) =
     (case download_line fmt build_version installer_name bullet of
        Inl e \<Rightarrow> (out, Some e)
      | Inr line \<Rightarrow> print_downloads fmt build_version (out @ [line]) rest)"

definition installers :: "configs \<Rightarrow> (string \<times> string) list" where
  "installers cfg =
     [(PYREVIT_INSTALLER_NAME cfg, ''- [pyRevit {version} Installer]({url})''),
      (PYREVIT_ADMIN_INSTALLER_NAME cfg,
       ''- [pyRevit {version} Installer - '' @ ''Admin / All Users / %PROGRAMDATA%]({url})''),
      (PYREVIT_CLI_INSTALLER_NAME cfg, ''- [pyRevit CLI {version} Installer]({url})''),
      (PYREVIT_CLI_ADMIN_INSTALLER_NAME cfg,
       ''- [pyRevit CLI {version} Installer - '' @ ''Admin / All Users / %PROGRAMDATA%]({url})'')]"

text \<open>
  \<^verbatim>\<open>generate_release_notes\<close>, given the build version of \<^verbatim>\<open>props.get_version()\<close>.
\<close>

definition generate_release_notes ::
  "(string \<Rightarrow> py_error + TicketInfo option) \<Rightarrow> (string \<Rightarrow> 64 word) \<Rightarrow> formatter \<Rightarrow> configs
     \<Rightarrow> string \<Rightarrow> string \<Rightarrow> printed" where
  "generate_release_notes get_ticket hash fmt cfg build_version gitlog_report =
     (case print_downloads fmt build_version [''# Downloads''] (installers cfg) of
        (out, Some e) \<Rightarrow> (out, Some e)
      | (out, None) \<Rightarrow>
          (case report_changelog get_ticket hash fmt gitlog_report of
             (out', err) \<Rightarrow> (out @ out', err)))"

subsection \<open>A model of \<^verbatim>\<open>str.format\<close> for plain templates\<close>

text \<open>
  \<open>str_format\<close> is \<^verbatim>\<open>str.format\<close> with keyword arguments only, for templates whose
  replacement fields are plain names: text is copied, \<^verbatim>\<open>{{\<close> and \<^verbatim>\<open>}}\<close> are the
  braces, \<^verbatim>\<open>{name}\<close> is the argument of that name (KeyError when there is none), an
  empty or numeric field asks for a positional argument (IndexError: there is none; a
  number above the largest index of a 64-bit build, \<open>2\<^sup>6\<^sup>3 - 1\<close>, is a ValueError),
  and a brace without its partner is a ValueError. A field with a conversion, a format
  specification, an attribute or an index is outside this model (\<open>FormatNotModelled\<close>).
  It is the formatter of the examples below; the theorems about all formatters do not
  depend on it.
\<close>

definition digits_value :: "string \<Rightarrow> int" where
  "digits_value field = foldl (\<lambda>n c. 10 * n + (of_char c - 48)) 0 field"

definition format_field :: "(string \<times> string) list \<Rightarrow> string \<Rightarrow> py_error + string" where
  "format_field kwargs field =
     (if list_ex (\<lambda>c. c \<in> set ''.[!:{'') field then Inl FormatNotModelled
      else if list_all is_digit field then
        (if digits_value field > 9223372036854775807 then Inl ValueError else Inl IndexError)
      else (case map_of kwargs field of None \<Rightarrow> Inl KeyError | Some v \<Rightarrow> Inr v))"

definition sum_append :: "py_error + string \<Rightarrow> py_error + string \<Rightarrow> py_error + string" where
  "sum_append a b =
     (case a of Inl e \<Rightarrow> Inl e
      | Inr x \<Rightarrow> (case b of Inl e \<Rightarrow> Inl e | Inr y \<Rightarrow> Inr (x @ y)))"

fun format_text :: "(string \<times> string) list \<Rightarrow> string \<Rightarrow> py_error + string"
  and format_in_field :: "(string \<times> string) list \<Rightarrow> string \<Rightarrow> string \<Rightarrow> py_error + string" where
  "format_text kwargs [] = Inr []"
| "format_text kwargs (c # cs) =
     (if c = CHR ''{'' then
        (case cs of
           [] \<Rightarrow> Inl ValueError
         | c' # cs' \<Rightarrow>
             if c' = CHR ''{'' then sum_append (Inr ''{'') (format_text kwargs cs')
             else format_in_field kwargs [] cs)
      else if c = CHR ''}'' then
        (case cs of
           [] \<Rightarrow> Inl ValueError
         | c' # cs' \<Rightarrow>
             if c' = CHR ''}'' then sum_append (Inr ''}'') (format_text kwargs cs')
             else Inl ValueError)
      else sum_append (Inr [c]) (format_text kwargs cs))"
| "format_in_field kwargs field [] = Inl ValueError"
| "format_in_field kwargs field (c # cs) =
     (if c = CHR ''}'' then sum_append (format_field kwargs field) (format_text kwargs cs)
      else format_in_field kwargs (field @ [c]) cs)"

definition str_format :: formatter where
  "str_format template kwargs = format_text kwargs template"

subsection \<open>Notions of the specification\<close>

text \<open>
  The \<^verbatim>\<open>#<digits>\<close> tokens of a commit subject, from left to right: each is the longest
  run of digits after a \<^verbatim>\<open>#\<close> that a digit follows.
\<close>

fun ticket_tokens :: "string \<Rightarrow> string list" where
  "ticket_tokens [] = []"
| "ticket_tokens (c # cs) =
     (if c = CHR ''#'' \<and> takeWhile is_digit cs \<noteq> [] then [takeWhile is_digit cs] else [])
       @ ticket_tokens cs"

subsection \<open>Notions of the proofs\<close>

text \<open>The captures of the first entry of a list of matches: what \<open>re_match\<close> returns.\<close>

definition first_captures :: "(string \<times> groups) list \<Rightarrow> groups option" where
  "first_captures l = (case l of [] \<Rightarrow> None | (rest, g) # _ \<Rightarrow> Some g)"

text \<open>The part of the ticket pattern after the leading \<^verbatim>\<open>.*\<close>, and what it captures.\<close>

definition ticket_tail :: regex where
  "ticket_tail =
     Cat (One (CLit CHR ''#'')) (Cat (Capture 0 (Greedy_Plus CDigit)) (Greedy_Star CAny))"

text \<open>
  What \<^verbatim>\<open>find_ticket\<close> computes, by recursion over the subject: a token further right
  on the first line wins over the one that starts here.
\<close>

fun last_ticket :: "string \<Rightarrow> string option" where
  "last_ticket [] = None"
| "last_ticket (c # cs) =
     (case (if c \<noteq> CHR 0x0A then last_ticket cs else None) of
        Some t \<Rightarrow> Some t
      | None \<Rightarrow>
          if c = CHR ''#'' \<and> takeWhile is_digit cs \<noteq> [] then Some (takeWhile is_digit cs)
          else None)"

text \<open>The changes that stand in some group of a dictionary.\<close>

definition grouped :: "aspect_dict \<Rightarrow> Change set" where
  "grouped d = (\<Union>(k, cs) \<in> set d. set cs)"

text \<open>
  A lazy repetition tries the rest of the pattern after each character it takes, the
  shortest first: \<open>lazy_scan k f acc s\<close> has taken \<open>acc\<close> and looks at \<open>s\<close>, and
  \<open>f\<close> is what the rest of the pattern captures.
\<close>

fun lazy_scan :: "cclass \<Rightarrow> (string \<Rightarrow> string \<Rightarrow> groups option) \<Rightarrow> string \<Rightarrow> string \<Rightarrow> groups option" where
  "lazy_scan k f acc [] = f acc []"
| "lazy_scan k f acc (c # cs) =
     (case f acc (c # cs) of
        Some r \<Rightarrow> Some r
      | None \<Rightarrow> if cmatch k c then lazy_scan k f (acc @ [c]) cs else None)"

text \<open>
  The aspect pattern in parts: the closing bracket with the trailing \<^verbatim>\<open>.*\<close>, the
  optional group \<^verbatim>\<open>(->(.+?))?\<close>, and the pattern after its leading \<^verbatim>\<open>.*\<close>; with
  each part, what its first match captures.
\<close>

definition bracket :: "string \<Rightarrow> groups \<Rightarrow> groups option" where
  "bracket r h = (case r of [] \<Rightarrow> None | c # _ \<Rightarrow> if c = CHR '']'' then Some h else None)"

definition aspect_close :: regex where
  "aspect_close = Cat (One (CLit CHR '']'')) (Greedy_Star CAny)"

definition custom_group :: regex where
  "custom_group = Capture 1 (Cat (One (CLit CHR ''-'')) (Cat (One (CLit CHR ''>''))
                                   (Capture 2 (Lazy_Plus CAny))))"

definition aspect_tail :: regex where
  "aspect_tail = Cat (One (CLit CHR ''['')) (Cat (Capture 0 (Lazy_Plus CAny))
                   (Cat (Optional custom_group) aspect_close))"

definition custom_first :: "string \<Rightarrow> groups \<Rightarrow> groups option" where
  "custom_first rest h =
     (case rest of
        c1 # c2 # e # es \<Rightarrow>
          if c1 = CHR ''-'' \<and> c2 = CHR ''>'' \<and> e \<noteq> CHR 0x0A
          then lazy_scan CAny (\<lambda>a r. bracket r (h[2 := Some a, 1 := Some (''->'' @ a)])) [e] es
          else None
      | _ \<Rightarrow> None)"

definition opt_first :: "string \<Rightarrow> groups \<Rightarrow> groups option" where
  "opt_first rest h = (case custom_first rest h of Some r \<Rightarrow> Some r | None \<Rightarrow> bracket rest h)"

definition directive_at :: "string \<Rightarrow> groups option" where
  "directive_at s =
     (case s of
        c # d # ds \<Rightarrow>
          if c = CHR ''['' \<and> d \<noteq> CHR 0x0A
          then lazy_scan CAny (\<lambda>a r. opt_first r [Some a, None, None]) [d] ds
          else None
      | _ \<Rightarrow> None)"

fun last_directive :: "string \<Rightarrow> groups option" where
  "last_directive [] = None"
| "last_directive (c # cs) =
     (case (if c \<noteq> CHR 0x0A then last_directive cs else None) of
        Some r \<Rightarrow> Some r
      | None \<Rightarrow> directive_at (c # cs))"

text \<open>The names of the subsystem aspects of all changes of the log window.\<close>

definition subsystem_names :: "Change list \<Rightarrow> string list" where
  "subsystem_names all_changes = concat (map (\<lambda>c. map aspect_name (subsystems c)) all_changes)"

text \<open>
  \<open>in_group hash d a c\<close>: the change \<open>c\<close> stands in the group that the dictionary finds
  for the aspect \<open>a\<close>.
\<close>

definition in_group :: "(string \<Rightarrow> 64 word) \<Rightarrow> aspect_dict \<Rightarrow> ChangeAspect \<Rightarrow> Change \<Rightarrow> bool" where
  "in_group hash d a c = (\<exists>k cs. (k, cs) \<in> set d \<and> ChangeAspect_eq hash k a \<and> c \<in> set cs)"

text \<open>
  \<open>printed_under fmt out A cs\<close>: in the Changes section of the output the heading
  \<open>A\<close> is followed by the renderings of the changes \<open>cs\<close>, in order.
\<close>

definition printed_under :: "formatter \<Rightarrow> string list \<Rightarrow> string \<Rightarrow> Change list \<Rightarrow> bool" where
  "printed_under fmt out A cs =
     (\<exists>before pre lines post.
        out = before @ header ''Changes'' 1 # pre @ header A 3 # lines @ post \<and>
        list_all2 (\<lambda>x r. Change_str fmt x = Inr r) cs lines)"

text \<open>A ticketed change with two subsystem labels, named \<open>A\<close> and \<open>B\<close>.\<close>

definition two_label_change :: "string \<Rightarrow> string \<Rightarrow> Change" where
  "two_label_change A B =
     \<lparr>commit_hash = ''abc123'', commit_ticket = Some ''7'', commit_todos = [],
      ticketdata = Some \<lparr>title = ''Fix the ribbon'', url = ''https://t/7'',
        labels = [\<lparr>name = A, description = ''[subsystem]''\<rparr>,
                  \<lparr>name = B, description = ''[subsystem]''\<rparr>]\<rparr>\<rparr>"

text \<open>
  \<open>report_prints fmt out highlighted groups\<close>: the output is the Highlights heading, the
  renderings of the changes \<open>highlighted\<close>, the Changes heading and, for each group in
  order, its heading and the renderings of its changes; nothing else.
\<close>

definition report_prints :: "formatter \<Rightarrow> string list \<Rightarrow> Change list \<Rightarrow> aspect_dict \<Rightarrow> bool" where
  "report_prints fmt out highlighted groups =
     (\<exists>hl blocks.
        out = header ''Highlights'' 1 # hl @ header ''Changes'' 1 # concat blocks \<and>
        list_all2 (\<lambda>x r. Change_str fmt x = Inr r) highlighted hl \<and>
        list_all2 (\<lambda>(k, cs) b. \<exists>lines. b = header (aspect_name k) 3 # lines \<and>
                      list_all2 (\<lambda>x r. Change_str fmt x = Inr r) cs lines) groups blocks)"

text \<open>
  The address of an installer with the version percent-encoded in the release tag and the
  installer's name as it is.
\<close>

definition tag_encoded_url :: "string \<Rightarrow> string \<Rightarrow> string" where
  "tag_encoded_url build_version installer =
     ''https://github.com/eirannejad/pyRevit/releases/download/v''
       @ str_replace CHR ''+'' ''%2B'' build_version @ ''/'' @ installer @ ''.exe''"

text \<open>Installer names that hold the version, for the examples.\<close>

definition signed_installers :: configs where
  "signed_installers =
     \<lparr>PYREVIT_INSTALLER_NAME = ''pyRevit_{version}_signed'',
      PYREVIT_ADMIN_INSTALLER_NAME = ''pyRevit_{version}_admin_signed'',
      PYREVIT_CLI_INSTALLER_NAME = ''pyRevit_CLI_{version}_signed'',
      PYREVIT_CLI_ADMIN_INSTALLER_NAME = ''pyRevit_CLI_{version}_admin_signed''\<rparr>"

text \<open>
  A ticket with the labels Highlight and Tools, the change of a commit for it built with
  fetching disabled, and the change of the same commit with the ticket fetched.
\<close>

definition ribbon_ticket :: TicketInfo where
  "ribbon_ticket =
     \<lparr>title = ''Fix the ribbon'', url = ''https://t/7'',
      labels = [\<lparr>name = ''Highlight'', description = []\<rparr>,
                \<lparr>name = ''Tools'', description = ''[subsystem]''\<rparr>]\<rparr>"

definition unfetched_change :: Change where
  "unfetched_change =
     \<lparr>commit_hash = ''abc123'', commit_ticket = Some ''7'', commit_todos = [],
      ticketdata = None\<rparr>"

definition fetched_change :: Change where
  "fetched_change =
     \<lparr>commit_hash = ''abc123'', commit_ticket = Some ''7'', commit_todos = [],
      ticketdata = Some ribbon_ticket\<rparr>"

section \<open>Properties\<close>

subsection \<open>The matcher\<close>

lemma re_match_first: "re_match r n s = first_captures (run r (s, replicate n None))"
  by (simp add: re_match_def first_captures_def)

lemma first_captures_append:
  "first_captures (xs @ ys) =
     (case first_captures xs of Some g \<Rightarrow> Some g | None \<Rightarrow> first_captures ys)"
  by (cases xs) (auto simp: first_captures_def)

lemma first_captures_Nil [simp]: "first_captures [] = None"
  by (simp add: first_captures_def)

lemma star_greedy_not_Nil [simp]: "star_greedy k s \<noteq> []"
  by (cases s) auto

lemma star_greedy_hd: "hd (star_greedy k s) = dropWhile (cmatch k) s"
  by (induction s) auto

lemma cmatch_CDigit [simp]: "cmatch CDigit = is_digit"
  by (rule ext) simp

text \<open>A pattern that starts with a greedy star tries the later starts first.\<close>

lemma run_Cat_star_greedy_Cons:
  "run (Cat (Greedy_Star k) r) (c # cs, g) =
     (if cmatch k c then run (Cat (Greedy_Star k) r) (cs, g) else []) @ run r (c # cs, g)"
  by simp

lemma length_dropWhile_takeWhile:
  "length xs - length (dropWhile P xs) = length (takeWhile P xs)"
  by (induction xs) (auto simp: Suc_diff_le length_dropWhile_le)

subsection \<open>Ticket extraction\<close>

lemma ticket_tail_first:
  "first_captures (run ticket_tail (s, [None])) =
     (case s of
        [] \<Rightarrow> None
      | c # cs \<Rightarrow>
          if c = CHR ''#'' \<and> takeWhile is_digit cs \<noteq> [] then Some [Some (takeWhile is_digit cs)]
          else None)"
proof (cases s)
  case Nil
  then show ?thesis by (simp add: ticket_tail_def)
next
  case outer: (Cons c cs)
  show ?thesis
  proof (cases cs)
    case Nil
    with outer show ?thesis by (simp add: ticket_tail_def)
  next
    case (Cons d ds)
    obtain ys where ys: "star_greedy CDigit ds = dropWhile is_digit ds # ys"
      using star_greedy_hd [of CDigit ds] star_greedy_not_Nil [of CDigit ds]
      by (cases "star_greedy CDigit ds") auto
    obtain x xs where xs: "star_greedy CAny (dropWhile is_digit ds) = x # xs"
      using star_greedy_not_Nil [of CAny "dropWhile is_digit ds"]
      by (cases "star_greedy CAny (dropWhile is_digit ds)") auto
    have len: "Suc (length ds) - length (dropWhile is_digit ds)
                 = Suc (length (takeWhile is_digit ds))"
      using length_dropWhile_takeWhile [of ds is_digit] length_dropWhile_le [of is_digit ds]
      by simp
    show ?thesis
      using outer Cons ys xs len
      by (simp add: ticket_tail_def first_captures_def takeWhile_eq_take [symmetric])
  qed
qed

lemma ticket_re_first:
  "first_captures (run ticket_re (s, [None])) = map_option (\<lambda>t. [Some t]) (last_ticket s)"
proof (induction s)
  case Nil
  show ?case by (simp add: ticket_re_def)
next
  case (Cons c cs)
  have re: "ticket_re = Cat (Greedy_Star CAny) ticket_tail"
    by (simp add: ticket_re_def ticket_tail_def)
  have "first_captures (run ticket_re (c # cs, [None])) =
      (case (if c \<noteq> CHR 0x0A then first_captures (run ticket_re (cs, [None])) else None) of
         Some g \<Rightarrow> Some g
       | None \<Rightarrow> first_captures (run ticket_tail (c # cs, [None])))"
    unfolding re run_Cat_star_greedy_Cons first_captures_append by simp
  with Cons.IH show ?case
    by (simp add: ticket_tail_first split: option.splits)
qed

lemma find_ticket_last: "find_ticket s = last_ticket s"
  by (simp add: find_ticket_def re_match_first ticket_re_first split: option.splits)

lemma find_ticket_no_token: "ticket_tokens s = [] \<Longrightarrow> find_ticket s = None"
  unfolding find_ticket_last by (induction s) (auto split: if_splits)

text \<open>
  C3. Ticket extraction takes the \<^verbatim>\<open>#<digits>\<close> token of the subject that stands
  rightmost, not the leftmost one: the pattern starts with a greedy \<^verbatim>\<open>.*\<close>. For a
  subject (one line) the ticket id is the digits of the last token, and there is no ticket
  when the subject has no token.
\<close>

theorem find_ticket_rightmost_token:
  "CHR 0x0A \<notin> set subject \<Longrightarrow>
     find_ticket subject =
       (if ticket_tokens subject = [] then None else Some (last (ticket_tokens subject)))"
  unfolding find_ticket_last by (induction subject) auto

theorem find_ticket_rightmost_token_witness:
  "CHR 0x0A \<notin> set ''fix #42 thing'' \<and> find_ticket ''fix #42 thing'' = Some ''42'' \<and>
   CHR 0x0A \<notin> set ''fix #42 and #7'' \<and> find_ticket ''fix #42 and #7'' = Some ''7'' \<and>
   CHR 0x0A \<notin> set ''no ticket here'' \<and> find_ticket ''no ticket here'' = None"
  using find_ticket_rightmost_token [of "''fix #42 thing''"]
    find_ticket_rightmost_token [of "''fix #42 and #7''"]
    find_ticket_rightmost_token [of "''no ticket here''"]
  by (simp add: is_digit_def)

text \<open>
  The subject \<^verbatim>\<open>fix #42 and #7\<close> has the leftmost token 42, and the ticket found is 7.
\<close>

theorem find_ticket_leftmost_counterexample:
  "hd (ticket_tokens ''fix #42 and #7'') = ''42'' \<and> find_ticket ''fix #42 and #7'' = Some ''7''"
  by code_simp

subsection \<open>The display form of a ticket\<close>

text \<open>
  C1. The display form of a change without a ticket should be the empty string. The
  property formats the optional ticket id into an f-string, so for the subject
  \<^verbatim>\<open>update docs\<close>, which has no token, it is the text \<^verbatim>\<open>#None\<close>.
\<close>

theorem ticket_of_ticketless_change:
  "ticket_tokens ''update docs'' = [] \<and>
   map_sum id ticket (Change_init (\<lambda>n. Inr None) ''abc123'' ''update docs'' [] True)
     = Inr ''#None''"
  by code_simp

subsection \<open>The change parser\<close>

text \<open>
  C4. The parser should end a block that has no delimiter at the end of the input. When a
  header line is the last line of the input, the parser reads the line after it and raises
  IndexError.
\<close>

theorem find_changes_header_last_line:
  "find_changes (\<lambda>n. Inr None) ''abc123 fix #1'' False = Inl IndexError"
  by code_simp

lemma comment_loop_takeWhile:
  "idx < length ls \<Longrightarrow>
     comment_loop ls idx acc (ls ! idx) =
       (acc @ concat (takeWhile (\<lambda>l. \<not> startswith l ''/'') (drop idx ls)),
        idx + length (takeWhile (\<lambda>l. \<not> startswith l ''/'') (drop idx ls)))"
proof (induction "length ls - idx" arbitrary: idx acc)
  case 0
  then show ?case by simp
next
  case (Suc n)
  have d: "drop idx ls = ls ! idx # drop (Suc idx) ls"
    using Suc.prems by (simp add: Cons_nth_drop_Suc)
  show ?case
  proof (cases "startswith (ls ! idx) ''/''")
    case True
    then show ?thesis by (subst comment_loop.simps) (simp add: d)
  next
    case body_line: False
    show ?thesis
    proof (cases "Suc idx < length ls")
      case True
      with Suc.hyps have "n = length ls - Suc idx" by simp
      from Suc.hyps(1) [OF this True, of "acc @ ls ! idx"] body_line True show ?thesis
        by (subst comment_loop.simps) (simp add: d Let_def)
    next
      case False
      with body_line show ?thesis
        by (subst comment_loop.simps) (simp add: d Let_def)
    qed
  qed
qed

text \<open>
  C5. The parser ends a block at the first line that starts with \<^verbatim>\<open>/\<close>, whatever
  follows the slash on that line, or at the end of the input: the comment body is the
  lines before that line, joined, and the index returned is that line's.
\<close>

theorem comment_loop_stops_at_slash_prefix:
  "idx < length changelines \<Longrightarrow>
     comment_loop changelines idx [] (changelines ! idx) =
       (concat (takeWhile (\<lambda>l. \<not> startswith l ''/'') (drop idx changelines)),
        idx + length (takeWhile (\<lambda>l. \<not> startswith l ''/'') (drop idx changelines)))"
  using comment_loop_takeWhile [of idx changelines "[]"] by simp

theorem comment_loop_stops_at_slash_prefix_witness:
  "(1::nat) < length [''abc123 fix #1'', ''body'', ''more'', ''/'', ''def456 next''] \<and>
   comment_loop [''abc123 fix #1'', ''body'', ''more'', ''/'', ''def456 next''] 1 [] ''body''
     = (''bodymore'', 3)"
  using comment_loop_stops_at_slash_prefix
          [of 1 "[''abc123 fix #1'', ''body'', ''more'', ''/'', ''def456 next'']"]
  by simp

text \<open>
  The body line \<^verbatim>\<open>/path note\<close> is not the line \<^verbatim>\<open>/\<close>, and it ends the block:
  it is not appended, and neither is the line after it.
\<close>

theorem comment_loop_exact_slash_counterexample:
  "[''abc123 fix #1'', ''body'', ''/path note'', ''tail'', ''/''] ! 2 \<noteq> ''/'' \<and>
   comment_loop [''abc123 fix #1'', ''body'', ''/path note'', ''tail'', ''/''] 1 [] ''body''
     = (''body'', 2)"
  by code_simp

text \<open>
  C6. Each body line with a checkbox should give one todo. The parser joins the body lines
  without a separator before the todos are searched line by line, so the block with the
  lines \<^verbatim>\<open>- [ ] do X\<close> and \<^verbatim>\<open>- [x] done Y\<close> has the one todo
  \<^verbatim>\<open>do X- [x] done Y\<close>; the same text with its line break has the todo \<^verbatim>\<open>do X\<close>.
\<close>

theorem find_changes_todos_joined:
  "find_changes (\<lambda>n. Inr None) ''abc123 fix #1\<newline>- [ ] do X\<newline>- [x] done Y\<newline>/'' False
     = Inr [\<lparr>commit_hash = ''abc123'', commit_ticket = Some ''1'',
              commit_todos = [''do X- [x] done Y''], ticketdata = None\<rparr>] \<and>
   find_todos ''- [ ] do X\<newline>- [x] done Y'' = [''do X'']"
  by code_simp

subsection \<open>Grouping\<close>

lemma grouped_member: "(k, cs) \<in> set d \<Longrightarrow> x \<in> set cs \<Longrightarrow> x \<in> grouped d"
  by (auto simp: grouped_def)

lemma grouped_dict_append: "grouped (dict_append hash d a v) = insert v (grouped d)"
  by (induction hash d a v rule: dict_append.induct) (auto simp: grouped_def)

lemma grouped_foldl_dict_append:
  "grouped (foldl (\<lambda>d' a. dict_append hash d' a v) d as) =
     (if as = [] then grouped d else insert v (grouped d))"
  by (induction as arbitrary: d) (auto simp: grouped_dict_append)

text \<open>
  The display form of a ticket starts with \<^verbatim>\<open>#\<close>, so the test \<^verbatim>\<open>not change.ticket\<close>
  of the grouping loop is false for every change: what keeps a change out of the groups is
  that it has no subsystem aspect.
\<close>

lemma ticket_not_empty: "ticket c \<noteq> []"
  by (simp add: ticket_def)

lemma group_change_no_subsystems: "subsystems c = [] \<Longrightarrow> group_change hash d c = d"
  by (simp add: group_change_def)

lemma grouped_group_change:
  "grouped (group_change hash d c) =
     (if subsystems c = [] then grouped d else insert c (grouped d))"
  by (simp add: group_change_def ticket_not_empty grouped_foldl_dict_append)

lemma grouped_foldl_group_change:
  "grouped (foldl (group_change hash) d cs) = grouped d \<union> {c \<in> set cs. subsystems c \<noteq> []}"
  by (induction cs arbitrary: d) (auto simp: grouped_group_change)

lemma grouped_group_changes:
  "grouped (group_changes hash all_changes) = {c \<in> set all_changes. subsystems c \<noteq> []}"
proof -
  have "grouped [] = {}" by (simp add: grouped_def)
  then show ?thesis by (simp add: group_changes_def grouped_foldl_group_change)
qed

lemma not_grouped:
  assumes "subsystems c = []"
  shows "\<forall>(k, cs) \<in> set (group_changes hash all_changes). c \<notin> set cs"
proof -
  have "c \<notin> grouped (group_changes hash all_changes)"
    using assms by (simp add: grouped_group_changes)
  then show ?thesis by (auto dest: grouped_member)
qed

lemma Change_init_no_metadata:
  assumes "\<not> fetch_info \<or> find_ticket message = None"
  shows "Change_init get_ticket chash message comments fetch_info =
           Inr \<lparr>commit_hash = chash, commit_ticket = find_ticket message,
                 commit_todos = find_todos comments, ticketdata = None\<rparr>"
  using assms by (auto simp: Change_init_def Let_def split: option.splits)


subsection \<open>The download addresses\<close>

lemma str_replace_no_plus: "CHR ''+'' \<notin> set (str_replace CHR ''+'' ''%2B'' s)"
  by (induction s) (auto simp: str_replace_def)

text \<open>
  C8. When the four installer names and the four bullets format, the release notes start
  with the Downloads heading and the four bullets, and the address of each bullet is
  \<open>tag_encoded_url\<close> of the build version and that installer's name: the version is
  percent-encoded in the release tag of the address, the part
  \<^verbatim>\<open>.../releases/download/v<version>/\<close>, which holds no \<^verbatim>\<open>+\<close>, and the file name
  after it is the name template formatted with the build version as it is. The changelog
  report follows.
\<close>

theorem release_notes_downloads:
  assumes "fmt (PYREVIT_INSTALLER_NAME cfg) [(''version'', build_version)] = Inr n1"
    and "fmt (PYREVIT_ADMIN_INSTALLER_NAME cfg) [(''version'', build_version)] = Inr n2"
    and "fmt (PYREVIT_CLI_INSTALLER_NAME cfg) [(''version'', build_version)] = Inr n3"
    and "fmt (PYREVIT_CLI_ADMIN_INSTALLER_NAME cfg) [(''version'', build_version)] = Inr n4"
    and "fmt ''- [pyRevit {version} Installer]({url})''
           [(''version'', build_version), (''url'', tag_encoded_url build_version n1)] = Inr b1"
    and "fmt ''- [pyRevit {version} Installer - Admin / All Users / %PROGRAMDATA%]({url})''
           [(''version'', build_version), (''url'', tag_encoded_url build_version n2)] = Inr b2"
    and "fmt ''- [pyRevit CLI {version} Installer]({url})''
           [(''version'', build_version), (''url'', tag_encoded_url build_version n3)] = Inr b3"
    and "fmt ''- [pyRevit CLI {version} Installer - Admin / All Users / %PROGRAMDATA%]({url})''
           [(''version'', build_version), (''url'', tag_encoded_url build_version n4)] = Inr b4"
  shows "generate_release_notes get_ticket hash fmt cfg build_version gitlog_report =
           (''# Downloads'' # b1 # b2 # b3 # b4
              # fst (report_changelog get_ticket hash fmt gitlog_report),
            snd (report_changelog get_ticket hash fmt gitlog_report)) \<and>
         CHR ''+'' \<notin> set (str_replace CHR ''+'' ''%2B'' build_version)"
proof -
  have u: "installer_url fmt build_version (PYREVIT_INSTALLER_NAME cfg)
             = Inr (tag_encoded_url build_version n1)"
      "installer_url fmt build_version (PYREVIT_ADMIN_INSTALLER_NAME cfg)
             = Inr (tag_encoded_url build_version n2)"
      "installer_url fmt build_version (PYREVIT_CLI_INSTALLER_NAME cfg)
             = Inr (tag_encoded_url build_version n3)"
      "installer_url fmt build_version (PYREVIT_CLI_ADMIN_INSTALLER_NAME cfg)
             = Inr (tag_encoded_url build_version n4)"
    using assms(1-4)
    by (simp_all add: installer_url_def base_url_def build_version_urlsafe_def
          tag_encoded_url_def)
  have "print_downloads fmt build_version [''# Downloads''] (installers cfg)
          = ([''# Downloads'', b1, b2, b3, b4], None)"
    using assms(5-8) by (simp add: installers_def download_line_def u)
  then show ?thesis
    by (simp add: generate_release_notes_def str_replace_no_plus split: prod.splits)
qed

lemma report_changelog_empty_log:
  "report_changelog (\<lambda>n. Inr None) (\<lambda>s. 0) str_format [] = ([''# Highlights'', ''# Changes''], None)"
  by code_simp

theorem release_notes_downloads_witness:
  "generate_release_notes (\<lambda>n. Inr None) (\<lambda>s. 0) str_format signed_installers ''4.8.10+22040'' []
     = ([''# Downloads'',
         ''- [pyRevit 4.8.10+22040 Installer](https://github.com/eirannejad/pyRevit/releases/download/v4.8.10%2B22040/pyRevit_4.8.10+22040_signed.exe)'',
         ''- [pyRevit 4.8.10+22040 Installer - Admin / All Users / %PROGRAMDATA%](https://github.com/eirannejad/pyRevit/releases/download/v4.8.10%2B22040/pyRevit_4.8.10+22040_admin_signed.exe)'',
         ''- [pyRevit CLI 4.8.10+22040 Installer](https://github.com/eirannejad/pyRevit/releases/download/v4.8.10%2B22040/pyRevit_CLI_4.8.10+22040_signed.exe)'',
         ''- [pyRevit CLI 4.8.10+22040 Installer - Admin / All Users / %PROGRAMDATA%](https://github.com/eirannejad/pyRevit/releases/download/v4.8.10%2B22040/pyRevit_CLI_4.8.10+22040_admin_signed.exe)'',
         ''# Highlights'', ''# Changes''], None)"
proof -
  have n: "str_format (PYREVIT_INSTALLER_NAME signed_installers) [(''version'', ''4.8.10+22040'')]
             = Inr ''pyRevit_4.8.10+22040_signed''"
      "str_format (PYREVIT_ADMIN_INSTALLER_NAME signed_installers) [(''version'', ''4.8.10+22040'')]
             = Inr ''pyRevit_4.8.10+22040_admin_signed''"
      "str_format (PYREVIT_CLI_INSTALLER_NAME signed_installers) [(''version'', ''4.8.10+22040'')]
             = Inr ''pyRevit_CLI_4.8.10+22040_signed''"
      "str_format (PYREVIT_CLI_ADMIN_INSTALLER_NAME signed_installers) [(''version'', ''4.8.10+22040'')]
             = Inr ''pyRevit_CLI_4.8.10+22040_admin_signed''"
    by code_simp+
  have b: "str_format ''- [pyRevit {version} Installer]({url})''
           [(''version'', ''4.8.10+22040''),
            (''url'', tag_encoded_url ''4.8.10+22040'' ''pyRevit_4.8.10+22040_signed'')]
        = Inr ''- [pyRevit 4.8.10+22040 Installer](https://github.com/eirannejad/pyRevit/releases/download/v4.8.10%2B22040/pyRevit_4.8.10+22040_signed.exe)''"
      "str_format ''- [pyRevit {version} Installer - Admin / All Users / %PROGRAMDATA%]({url})''
           [(''version'', ''4.8.10+22040''),
            (''url'', tag_encoded_url ''4.8.10+22040'' ''pyRevit_4.8.10+22040_admin_signed'')]
        = Inr ''- [pyRevit 4.8.10+22040 Installer - Admin / All Users / %PROGRAMDATA%](https://github.com/eirannejad/pyRevit/releases/download/v4.8.10%2B22040/pyRevit_4.8.10+22040_admin_signed.exe)''"
      "str_format ''- [pyRevit CLI {version} Installer]({url})''
           [(''version'', ''4.8.10+22040''),
            (''url'', tag_encoded_url ''4.8.10+22040'' ''pyRevit_CLI_4.8.10+22040_signed'')]
        = Inr ''- [pyRevit CLI 4.8.10+22040 Installer](https://github.com/eirannejad/pyRevit/releases/download/v4.8.10%2B22040/pyRevit_CLI_4.8.10+22040_signed.exe)''"
      "str_format ''- [pyRevit CLI {version} Installer - Admin / All Users / %PROGRAMDATA%]({url})''
           [(''version'', ''4.8.10+22040''),
            (''url'', tag_encoded_url ''4.8.10+22040'' ''pyRevit_CLI_4.8.10+22040_admin_signed'')]
        = Inr ''- [pyRevit CLI 4.8.10+22040 Installer - Admin / All Users / %PROGRAMDATA%](https://github.com/eirannejad/pyRevit/releases/download/v4.8.10%2B22040/pyRevit_CLI_4.8.10+22040_admin_signed.exe)''"
    by code_simp+
  from release_notes_downloads [OF n b, of "\<lambda>n. Inr None" "\<lambda>s. 0" "[]"]
  show ?thesis by (simp add: report_changelog_empty_log)
qed

text \<open>
  With the name templates \<^verbatim>\<open>pyRevit_{version}_signed\<close> and so on and the version
  \<^verbatim>\<open>4.8.9+0320\<close>, each of the four addresses holds the version a second time, in the
  file name, with its \<^verbatim>\<open>+\<close> as it is.
\<close>

theorem release_notes_plus_counterexample:
  "generate_release_notes (\<lambda>n. Inr None) (\<lambda>s. 0) str_format signed_installers ''4.8.9+0320'' []
     = ([''# Downloads'',
         ''- [pyRevit 4.8.9+0320 Installer](https://github.com/eirannejad/pyRevit/releases/download/v4.8.9%2B0320/pyRevit_4.8.9+0320_signed.exe)'',
         ''- [pyRevit 4.8.9+0320 Installer - Admin / All Users / %PROGRAMDATA%](https://github.com/eirannejad/pyRevit/releases/download/v4.8.9%2B0320/pyRevit_4.8.9+0320_admin_signed.exe)'',
         ''- [pyRevit CLI 4.8.9+0320 Installer](https://github.com/eirannejad/pyRevit/releases/download/v4.8.9%2B0320/pyRevit_CLI_4.8.9+0320_signed.exe)'',
         ''- [pyRevit CLI 4.8.9+0320 Installer - Admin / All Users / %PROGRAMDATA%](https://github.com/eirannejad/pyRevit/releases/download/v4.8.9%2B0320/pyRevit_CLI_4.8.9+0320_admin_signed.exe)'',
         ''# Highlights'', ''# Changes''], None) \<and>
   str_contains ''/pyRevit_4.8.9+0320_signed.exe''
     ''- [pyRevit 4.8.9+0320 Installer](https://github.com/eirannejad/pyRevit/releases/download/v4.8.9%2B0320/pyRevit_4.8.9+0320_signed.exe)''"
  by code_simp

subsection \<open>Aspect patterns\<close>

lemma first_captures_concat_Cons:
  "first_captures (concat (map f (x # xs))) =
     (case first_captures (f x) of Some r \<Rightarrow> Some r | None \<Rightarrow> first_captures (concat (map f xs)))"
  by (simp add: first_captures_append)

lemma star_lazy_scan:
  "first_captures (concat (map (\<lambda>r. G (take (length acc + length r0 - length r) (acc @ r0)) r)
                      (star_lazy k r0)))
     = lazy_scan k (\<lambda>a r. first_captures (G a r)) acc r0"
proof (induction r0 arbitrary: acc)
  case Nil
  show ?case by (simp add: first_captures_append)
next
  case (Cons c cs)
  have "first_captures (concat (map (\<lambda>r. G (take (length (acc @ [c]) + length cs - length r) ((acc @ [c]) @ cs)) r)
                      (star_lazy k cs)))
     = lazy_scan k (\<lambda>a r. first_captures (G a r)) (acc @ [c]) cs"
    by (rule Cons.IH)
  then show ?case
    by (simp add: first_captures_append split: option.splits)
qed

lemma star_lazy_length: "r \<in> set (star_lazy k s) \<Longrightarrow> length r \<le> length s"
  by (induction s) (auto split: if_splits)

text \<open>A lazy group followed by the rest of the pattern.\<close>

lemma run_Capture_Lazy_Plus:
  "first_captures (run (Cat (Capture i (Lazy_Plus k)) K) (s, g)) =
     (case s of
        [] \<Rightarrow> None
      | d # ds \<Rightarrow>
          if cmatch k d
          then lazy_scan k (\<lambda>a r. first_captures (run K (r, g[i := Some a]))) [d] ds
          else None)"
proof (cases s)
  case Nil
  then show ?thesis by simp
next
  case (Cons d ds)
  show ?thesis
  proof (cases "cmatch k d")
    case True
    have "run (Cat (Capture i (Lazy_Plus k)) K) (d # ds, g) =
        concat (map (\<lambda>r. run K (r, g[i := Some (take (length [d] + length ds - length r) ([d] @ ds))]))
                  (star_lazy k ds))"
      using True by (simp add: comp_def)
    then show ?thesis
      using Cons True star_lazy_scan [of "\<lambda>a r. run K (r, g[i := Some a])" "[d]" ds k]
      by simp
  next
    case False
    with Cons show ?thesis by simp
  qed
qed

lemma aspect_re_tail: "aspect_re = Cat (Greedy_Star CAny) aspect_tail"
  by (simp add: aspect_re_def aspect_tail_def custom_group_def aspect_close_def)

lemma aspect_close_first: "first_captures (run aspect_close (r, h)) = bracket r h"
proof (cases r)
  case Nil
  then show ?thesis by (simp add: aspect_close_def bracket_def)
next
  case (Cons c cs)
  obtain x xs where "star_greedy CAny cs = x # xs"
    using star_greedy_not_Nil [of CAny cs] by (cases "star_greedy CAny cs") auto
  with Cons show ?thesis
    by (simp add: aspect_close_def bracket_def first_captures_def)
qed

lemma custom_group_first:
  "first_captures (concat (map (run aspect_close) (run custom_group (rest, h))))
     = custom_first rest h"
proof (cases "\<exists>e es. rest = CHR ''-'' # CHR ''>'' # e # es \<and> e \<noteq> CHR 0x0A")
  case True
  then obtain e es where rest: "rest = CHR ''-'' # CHR ''>'' # e # es" and e: "e \<noteq> CHR 0x0A"
    by blast
  have "concat (map (run aspect_close) (run custom_group (rest, h))) =
      concat (map (\<lambda>r. run aspect_close
                (r, h[2 := Some (take (Suc (length es) - length r) (e # es)),
                      1 := Some (take (Suc (Suc (Suc (length es))) - length r)
                                   (CHR ''-'' # CHR ''>'' # e # es))]))
             (star_lazy CAny es))"
    using rest e by (simp add: custom_group_def comp_def)
  also have "\<dots> = concat (map (\<lambda>r. run aspect_close
                (r, h[2 := Some (take (length [e] + length es - length r) ([e] @ es)),
                      1 := Some (''->'' @ take (length [e] + length es - length r) ([e] @ es))]))
             (star_lazy CAny es))"
  proof -
    have "\<And>r. r \<in> set (star_lazy CAny es) \<Longrightarrow>
        take (Suc (Suc (Suc (length es))) - length r) (CHR ''-'' # CHR ''>'' # e # es)
          = ''->'' @ take (length [e] + length es - length r) ([e] @ es)"
      by (drule star_lazy_length) (simp add: Suc_diff_le)
    then show ?thesis
      by (intro arg_cong [where f = concat] map_cong refl) simp
  qed
  finally show ?thesis
    using rest e
      star_lazy_scan [of "\<lambda>a r. run aspect_close (r, h[2 := Some a, 1 := Some (''->'' @ a)])" "[e]" es CAny]
    by (simp add: custom_first_def aspect_close_first)
next
  case False
  then have "run custom_group (rest, h) = []"
    by (auto simp: custom_group_def split: list.splits)
  moreover have "custom_first rest h = None"
    using False by (auto simp: custom_first_def split: list.splits)
  ultimately show ?thesis by simp
qed

lemma aspect_opt_first:
  "first_captures (run (Cat (Optional custom_group) aspect_close) (rest, h)) = opt_first rest h"
  by (simp add: first_captures_append custom_group_first aspect_close_first opt_first_def
           split: option.splits)

lemma run_Cat_One:
  "run (Cat (One k) r) (s, g) =
     (case s of [] \<Rightarrow> [] | c # cs \<Rightarrow> if cmatch k c then run r (cs, g) else [])"
  by (cases s) auto

lemma aspect_tail_first:
  "first_captures (run aspect_tail (s, [None, None, None])) = directive_at s"
proof (cases s)
  case Nil
  then show ?thesis
    unfolding aspect_tail_def run_Cat_One by (simp add: directive_at_def)
next
  case (Cons c cs)
  then show ?thesis
    unfolding aspect_tail_def run_Cat_One
    by (simp add: run_Capture_Lazy_Plus aspect_opt_first directive_at_def
             split: list.splits del: run.simps)
qed

lemma aspect_re_first:
  "first_captures (run aspect_re (s, [None, None, None])) = last_directive s"
proof (induction s)
  case Nil
  show ?case by (simp add: aspect_re_def)
next
  case (Cons c cs)
  have "first_captures (run aspect_re (c # cs, [None, None, None])) =
      (case (if c \<noteq> CHR 0x0A then first_captures (run aspect_re (cs, [None, None, None])) else None) of
         Some g \<Rightarrow> Some g
       | None \<Rightarrow> first_captures (run aspect_tail (c # cs, [None, None, None])))"
    unfolding aspect_re_tail run_Cat_star_greedy_Cons first_captures_append by simp
  with Cons.IH show ?case
    by (simp add: aspect_tail_first split: option.splits)
qed

lemma re_match_aspect: "re_match aspect_re 3 s = last_directive s"
  by (simp add: re_match_first aspect_re_first numeral_3_eq_3)

lemma lazy_scan_hit: "f acc s = Some r \<Longrightarrow> lazy_scan k f acc s = Some r"
  by (cases s) auto

lemma lazy_scan_skip:
  assumes "\<And>p1 p2. p = p1 @ p2 \<Longrightarrow> p2 \<noteq> [] \<Longrightarrow> f (acc @ p1) (p2 @ q) = None"
    and "\<forall>c \<in> set p. cmatch k c"
  shows "lazy_scan k f acc (p @ q) = lazy_scan k f (acc @ p) q"
  using assms
proof (induction p arbitrary: acc)
  case Nil
  then show ?case by simp
next
  case (Cons c cs)
  have here: "f acc ((c # cs) @ q) = None"
    using Cons.prems(1) [of "[]" "c # cs"] by simp
  have "lazy_scan k f (acc @ [c]) (cs @ q) = lazy_scan k f ((acc @ [c]) @ cs) q"
  proof (rule Cons.IH)
    fix p1 p2
    assume "cs = p1 @ p2" "p2 \<noteq> []"
    then show "f ((acc @ [c]) @ p1) (p2 @ q) = None"
      using Cons.prems(1) [of "c # p1" p2] by simp
  next
    show "\<forall>c \<in> set cs. cmatch k c" using Cons.prems(2) by simp
  qed
  with here Cons.prems(2) show ?case by simp
qed

lemma lazy_scan_sound:
  "lazy_scan k f acc s = Some r \<Longrightarrow> \<exists>p q. s = p @ q \<and> f (acc @ p) q = Some r"
proof (induction s arbitrary: acc)
  case Nil
  then show ?case by simp
next
  case (Cons c cs)
  show ?case
  proof (cases "f acc (c # cs)")
    case (Some r')
    with Cons.prems have "f (acc @ []) (c # cs) = Some r" by simp
    then show ?thesis by (metis append_Nil)
  next
    case None
    with Cons.prems have "lazy_scan k f (acc @ [c]) cs = Some r"
      by (simp split: if_splits)
    from Cons.IH [OF this] obtain p q where "cs = p @ q" "f ((acc @ [c]) @ p) q = Some r"
      by blast
    then have "c # cs = (c # p) @ q \<and> f (acc @ (c # p)) q = Some r" by simp
    then show ?thesis by blast
  qed
qed

text \<open>A custom pattern that is captured stands in a directive of the description.\<close>

lemma last_directive_sound:
  "last_directive s = Some g \<Longrightarrow> \<exists>pre t. s = pre @ t \<and> directive_at t = Some g"
proof (induction s)
  case Nil
  then show ?case by simp
next
  case (Cons c cs)
  show ?case
  proof (cases "c \<noteq> CHR 0x0A \<and> last_directive cs = Some g")
    case True
    with Cons.IH obtain pre t where "cs = pre @ t" "directive_at t = Some g" by blast
    then have "c # cs = (c # pre) @ t \<and> directive_at t = Some g" by simp
    then show ?thesis by blast
  next
    case False
    with Cons.prems have "directive_at (c # cs) = Some g"
      by (auto split: if_splits option.splits)
    then have "c # cs = [] @ (c # cs) \<and> directive_at (c # cs) = Some g" by simp
    then show ?thesis by blast
  qed
qed

lemma bracket_Some: "bracket r h = Some g \<Longrightarrow> g = h \<and> (\<exists>post. r = CHR '']'' # post)"
  by (auto simp: bracket_def split: list.splits if_splits)

lemma custom_first_sound:
  assumes "custom_first rest [Some tag, None, None] = Some g"
  shows "\<exists>custom post. rest = ''->'' @ custom @ '']'' @ post \<and> custom \<noteq> [] \<and>
           g = [Some tag, Some (''->'' @ custom), Some custom]"
proof -
  from assms obtain e es where rest: "rest = CHR ''-'' # CHR ''>'' # e # es"
    and scan: "lazy_scan CAny (\<lambda>a r. bracket r ([Some tag, None, None][2 := Some a, 1 := Some (''->'' @ a)]))
                 [e] es = Some g"
    by (auto simp: custom_first_def split: list.splits if_splits)
  from lazy_scan_sound [OF scan] obtain p q where es: "es = p @ q"
    and b: "bracket q ([Some tag, None, None][2 := Some ([e] @ p), 1 := Some (''->'' @ [e] @ p)]) = Some g"
    by blast
  from bracket_Some [OF b] obtain post where "q = CHR '']'' # post"
    and "g = [Some tag, None, None][2 := Some ([e] @ p), 1 := Some (''->'' @ [e] @ p)]"
    by blast
  with rest es have "rest = ''->'' @ (e # p) @ '']'' @ post \<and> e # p \<noteq> [] \<and>
           g = [Some tag, Some (''->'' @ (e # p)), Some (e # p)]"
    by (simp add: numeral_2_eq_2)
  then show ?thesis by blast
qed

lemma directive_at_sound:
  assumes "directive_at t = Some g" and "g ! 2 = Some p"
  shows "\<exists>tag post. t = ''['' @ tag @ ''->'' @ p @ '']'' @ post \<and> tag \<noteq> [] \<and> p \<noteq> []"
proof -
  from assms(1) obtain d ds where t: "t = CHR ''['' # d # ds"
    and scan: "lazy_scan CAny (\<lambda>a r. opt_first r [Some a, None, None]) [d] ds = Some g"
    by (auto simp: directive_at_def split: list.splits if_splits)
  from lazy_scan_sound [OF scan] obtain tag' q where ds: "ds = tag' @ q"
    and o: "opt_first q [Some ([d] @ tag'), None, None] = Some g"
    by blast
  show ?thesis
  proof (cases "custom_first q [Some ([d] @ tag'), None, None]")
    case None
    with o have "bracket q [Some ([d] @ tag'), None, None] = Some g"
      by (simp add: opt_first_def)
    from bracket_Some [OF this] assms(2) show ?thesis by (simp add: numeral_2_eq_2)
  next
    case (Some g')
    with o have "custom_first q [Some ([d] @ tag'), None, None] = Some g"
      by (simp add: opt_first_def)
    from custom_first_sound [OF this] obtain custom post
      where "q = ''->'' @ custom @ '']'' @ post" "custom \<noteq> []"
        "g = [Some ([d] @ tag'), Some (''->'' @ custom), Some custom]"
      by blast
    with assms(2) t ds
    have "t = ''['' @ (d # tag') @ ''->'' @ p @ '']'' @ post \<and> d # tag' \<noteq> [] \<and> p \<noteq> []"
      by (simp add: numeral_2_eq_2)
    then show ?thesis by blast
  qed
qed

lemma re_match_aspect_sound:
  assumes "re_match aspect_re 3 s = Some g" and "g ! 2 = Some p"
  shows "\<exists>pre tag post. s = pre @ ''['' @ tag @ ''->'' @ p @ '']'' @ post \<and> tag \<noteq> [] \<and> p \<noteq> []"
proof -
  from assms(1) have "last_directive s = Some g" by (simp add: re_match_aspect)
  from last_directive_sound [OF this] obtain pre t where "s = pre @ t" "directive_at t = Some g"
    by blast
  with directive_at_sound [OF _ assms(2)] show ?thesis by blast
qed

text \<open>A description whose last bracket on the first line is one directive.\<close>

lemma bracket_other: "r \<noteq> [] \<Longrightarrow> hd r \<noteq> CHR '']'' \<Longrightarrow> bracket r h = None"
  by (cases r) (auto simp: bracket_def)

lemma custom_first_at:
  assumes "custom \<noteq> []" and "CHR 0x0A \<notin> set custom" and "CHR '']'' \<notin> set custom"
  shows "custom_first (''->'' @ custom @ '']'' @ post) [Some tag, None, None]
           = Some [Some tag, Some (''->'' @ custom), Some custom]"
proof -
  from assms(1) obtain e es where custom: "custom = e # es" by (cases custom) auto
  let ?B = "\<lambda>a r. bracket r ([Some tag, None, None][2 := Some a, 1 := Some (''->'' @ a)])"
  have "lazy_scan CAny ?B [e] (es @ '']'' @ post) = lazy_scan CAny ?B ([e] @ es) ('']'' @ post)"
  proof (rule lazy_scan_skip)
    fix p1 p2
    assume "es = p1 @ p2" "p2 \<noteq> []"
    with assms(3) custom have "hd (p2 @ '']'' @ post) \<noteq> CHR '']''"
      by (cases p2) auto
    with \<open>p2 \<noteq> []\<close> show "?B ([e] @ p1) (p2 @ '']'' @ post) = None"
      by (intro bracket_other) auto
  next
    show "\<forall>c \<in> set es. cmatch CAny c" using assms(2) custom by auto
  qed
  also have "\<dots> = Some ([Some tag, None, None][2 := Some ([e] @ es), 1 := Some (''->'' @ [e] @ es)])"
    by (rule lazy_scan_hit) (simp add: bracket_def)
  finally show ?thesis
    using custom assms(2) by (auto simp: custom_first_def numeral_2_eq_2)
qed

lemma custom_first_inside_tag:
  assumes "p2 \<noteq> []" and "CHR ''>'' \<notin> set p2"
  shows "custom_first (p2 @ ''->'' @ rest) h = None"
proof (cases p2)
  case Nil
  with assms show ?thesis by simp
next
  case (Cons x xs)
  with assms(2) show ?thesis
    by (cases xs) (auto simp: custom_first_def split: list.splits)
qed

lemma directive_at_here:
  assumes "tag \<noteq> []" and "custom \<noteq> []"
    and "CHR 0x0A \<notin> set (tag @ custom)"
    and "CHR '']'' \<notin> set (tag @ custom)"
    and "CHR ''>'' \<notin> set tag"
  shows "directive_at (''['' @ tag @ ''->'' @ custom @ '']'' @ post)
           = Some [Some tag, Some (''->'' @ custom), Some custom]"
proof -
  from assms(1) obtain d ds where tag: "tag = d # ds" by (cases tag) auto
  let ?q = "''->'' @ custom @ '']'' @ post"
  let ?F = "\<lambda>a r. opt_first r [Some a, None, None]"
  have "lazy_scan CAny ?F [d] (ds @ ?q) = lazy_scan CAny ?F ([d] @ ds) ?q"
  proof (rule lazy_scan_skip)
    fix p1 p2
    assume split: "ds = p1 @ p2" "p2 \<noteq> []"
    with assms(5) tag have "CHR ''>'' \<notin> set p2" by auto
    with split have "custom_first (p2 @ ?q) [Some ([d] @ p1), None, None] = None"
      by (intro custom_first_inside_tag)
    moreover have "hd (p2 @ ?q) \<noteq> CHR '']''"
      using split assms(4) tag by (cases p2) auto
    then have "bracket (p2 @ ?q) [Some ([d] @ p1), None, None] = None"
      using split by (intro bracket_other) auto
    ultimately show "?F ([d] @ p1) (p2 @ ?q) = None"
      by (simp add: opt_first_def)
  next
    show "\<forall>c \<in> set ds. cmatch CAny c" using assms(3) tag by auto
  qed
  also have "\<dots> = Some [Some tag, Some (''->'' @ custom), Some custom]"
  proof (rule lazy_scan_hit)
    have "custom_first ?q [Some tag, None, None] = Some [Some tag, Some (''->'' @ custom), Some custom]"
      using assms by (intro custom_first_at) auto
    then show "?F ([d] @ ds) ?q = Some [Some tag, Some (''->'' @ custom), Some custom]"
      using tag by (simp add: opt_first_def)
  qed
  finally show ?thesis
    using tag assms(3) by (auto simp: directive_at_def)
qed

lemma directive_at_no_bracket: "s = [] \<or> hd s \<noteq> CHR ''['' \<Longrightarrow> directive_at s = None"
  by (cases s) (auto simp: directive_at_def split: list.splits)

lemma last_directive_no_bracket: "CHR ''['' \<notin> set s \<Longrightarrow> last_directive s = None"
  by (induction s) (auto simp: directive_at_no_bracket)

lemma last_directive_prefix:
  "CHR 0x0A \<notin> set pre \<Longrightarrow> last_directive t = Some g \<Longrightarrow> last_directive (pre @ t) = Some g"
  by (induction pre) auto

lemma last_directive_here:
  assumes "tag \<noteq> []" and "custom \<noteq> []"
    and "CHR 0x0A \<notin> set (pre @ tag @ custom)"
    and "CHR ''['' \<notin> set (tag @ custom @ post)"
    and "CHR '']'' \<notin> set (tag @ custom)"
    and "CHR ''>'' \<notin> set tag"
  shows "last_directive (pre @ ''['' @ tag @ ''->'' @ custom @ '']'' @ post)
           = Some [Some tag, Some (''->'' @ custom), Some custom]"
proof -
  have "last_directive (tag @ ''->'' @ custom @ '']'' @ post) = None"
    using assms(4) by (intro last_directive_no_bracket) auto
  moreover have "directive_at (''['' @ tag @ ''->'' @ custom @ '']'' @ post)
           = Some [Some tag, Some (''->'' @ custom), Some custom]"
    using assms by (intro directive_at_here) auto
  ultimately have here: "last_directive (''['' @ tag @ ''->'' @ custom @ '']'' @ post)
           = Some [Some tag, Some (''->'' @ custom), Some custom]"
    by simp
  have "CHR 0x0A \<notin> set pre" using assms(3) by simp
  then show ?thesis
    using here by (rule last_directive_prefix)
qed

lemma aspect_pattern_cases:
  "aspect_pattern (ChangeAspect_init l) =
     (case re_match aspect_re 3 (description l) of
        None \<Rightarrow> DefaultPattern
      | Some g \<Rightarrow> (case g ! 2 of None \<Rightarrow> DefaultPattern
                   | Some p \<Rightarrow> if p \<noteq> [] then ''- '' @ p else DefaultPattern))"
  by (simp add: ChangeAspect_init_def split: option.splits)

lemma aspect_match_custom_example:
  "re_match aspect_re 3 ''[subsystem->- Fixed {ticket}]'' = Some [Some ''subsystem'', Some ''->- Fixed {ticket}'', Some ''- Fixed {ticket}'']"
  by code_simp
lemma aspect_match_plain_example:
  "re_match aspect_re 3 ''[subsystem]'' = Some [Some ''subsystem'', None, None]"
  by code_simp

text \<open>
  C7. The pattern of an aspect is the default template unless the description holds a
  directive \<^verbatim>\<open>[tag->custom]\<close>, and then it is the default or \<^verbatim>\<open>- \<close> followed by
  the custom text of such a directive. It is \<^verbatim>\<open>- \<close> followed by the custom text when
  the directive is the last bracket of a one-line description (tag and custom text not
  empty and without brackets, the tag without \<^verbatim>\<open>>\<close>). The description
  \<^verbatim>\<open>[subsystem->- Fixed {ticket}]\<close> gives the pattern \<^verbatim>\<open>- - Fixed {ticket}\<close>, and
  \<^verbatim>\<open>[subsystem]\<close> gives the default.
\<close>

theorem aspect_pattern_directive:
  "(aspect_pattern (ChangeAspect_init l) = DefaultPattern \<or>
     (\<exists>pre tag custom post.
        description l = pre @ ''['' @ tag @ ''->'' @ custom @ '']'' @ post \<and>
        tag \<noteq> [] \<and> custom \<noteq> [] \<and> aspect_pattern (ChangeAspect_init l) = ''- '' @ custom)) \<and>
   (description l = pre @ ''['' @ tag @ ''->'' @ custom @ '']'' @ post \<and>
    tag \<noteq> [] \<and> custom \<noteq> [] \<and>
    CHR 0x0A \<notin> set (pre @ tag @ custom) \<and> CHR ''['' \<notin> set (tag @ custom @ post) \<and>
    CHR '']'' \<notin> set (tag @ custom) \<and> CHR ''>'' \<notin> set tag
      \<longrightarrow> aspect_pattern (ChangeAspect_init l) = ''- '' @ custom) \<and>
   aspect_pattern (ChangeAspect_init \<lparr>name = n, description = ''[subsystem->- Fixed {ticket}]''\<rparr>)
     = ''- - Fixed {ticket}'' \<and>
   aspect_pattern (ChangeAspect_init \<lparr>name = n, description = ''[subsystem]''\<rparr>) = DefaultPattern"
proof (intro conjI impI)
  show "aspect_pattern (ChangeAspect_init l) = DefaultPattern \<or>
     (\<exists>pre tag custom post.
        description l = pre @ ''['' @ tag @ ''->'' @ custom @ '']'' @ post \<and>
        tag \<noteq> [] \<and> custom \<noteq> [] \<and> aspect_pattern (ChangeAspect_init l) = ''- '' @ custom)"
  proof (cases "aspect_pattern (ChangeAspect_init l) = DefaultPattern")
    case True
    then show ?thesis by simp
  next
    case False
    then obtain g p where m: "re_match aspect_re 3 (description l) = Some g" and p: "g ! 2 = Some p"
      and pat: "aspect_pattern (ChangeAspect_init l) = ''- '' @ p"
      by (auto simp: aspect_pattern_cases split: option.splits if_splits)
    from re_match_aspect_sound [OF m p] pat show ?thesis by blast
  qed
next
  assume a: "description l = pre @ ''['' @ tag @ ''->'' @ custom @ '']'' @ post \<and>
    tag \<noteq> [] \<and> custom \<noteq> [] \<and>
    CHR 0x0A \<notin> set (pre @ tag @ custom) \<and> CHR ''['' \<notin> set (tag @ custom @ post) \<and>
    CHR '']'' \<notin> set (tag @ custom) \<and> CHR ''>'' \<notin> set tag"
  then have "last_directive (pre @ ''['' @ tag @ ''->'' @ custom @ '']'' @ post)
           = Some [Some tag, Some (''->'' @ custom), Some custom]"
    by (intro last_directive_here) auto
  with a show "aspect_pattern (ChangeAspect_init l) = ''- '' @ custom"
    by (simp add: aspect_pattern_cases re_match_aspect numeral_2_eq_2)
next
  show "aspect_pattern (ChangeAspect_init \<lparr>name = n, description = ''[subsystem->- Fixed {ticket}]''\<rparr>)
     = ''- - Fixed {ticket}''"
    by (simp add: aspect_pattern_cases aspect_match_custom_example numeral_2_eq_2)
next
  show "aspect_pattern (ChangeAspect_init \<lparr>name = n, description = ''[subsystem]''\<rparr>) = DefaultPattern"
    by (simp add: aspect_pattern_cases aspect_match_plain_example numeral_2_eq_2)
qed

theorem aspect_pattern_directive_witness:
  "aspect_pattern (ChangeAspect_init
      \<lparr>name = ''Tools'', description = ''Tools [subsystem->Fixed {ticket}] of the ribbon''\<rparr>)
     = ''- Fixed {ticket}''"
  using aspect_pattern_directive
    [of "\<lparr>name = ''Tools'', description = ''Tools [subsystem->Fixed {ticket}] of the ribbon''\<rparr>"
        "''Tools ''" "''subsystem''" "''Fixed {ticket}''" "'' of the ribbon''"]
  by simp

text \<open>
  The description \<^verbatim>\<open>[subsystem->- Fixed {ticket}]\<close> does not give
  \<^verbatim>\<open>- Fixed {ticket}\<close>: the dash of the custom text follows the dash the constructor
  puts. A directive that another bracket follows is not found: the leading \<^verbatim>\<open>.*\<close> is
  greedy.
\<close>

theorem aspect_pattern_counterexample:
  "aspect_pattern (ChangeAspect_init
      \<lparr>name = ''Tools'', description = ''[subsystem->- Fixed {ticket}]''\<rparr>) = ''- - Fixed {ticket}'' \<and>
   aspect_pattern (ChangeAspect_init
      \<lparr>name = ''Tools'', description = ''[subsystem->Fixed {ticket}] [core]''\<rparr>) = DefaultPattern"
  by code_simp

subsection \<open>Changes under their subsystems\<close>

lemma in_groupI:
  "(k, cs) \<in> set d \<Longrightarrow> ChangeAspect_eq hash k a \<Longrightarrow> c \<in> set cs \<Longrightarrow> in_group hash d a c"
  by (auto simp: in_group_def)

lemma in_group_Cons: "in_group hash d a c \<Longrightarrow> in_group hash (kc # d) a c"
  by (auto simp: in_group_def)

lemma in_group_dict_append_new: "in_group hash (dict_append hash d a v) a v"
proof (induction hash d a v rule: dict_append.induct)
  case (1 hash k v)
  show ?case by (rule in_groupI [of k "[v]"]) (simp_all add: ChangeAspect_eq_def)
next
  case (2 hash k' vs d k v)
  show ?case
  proof (cases "ChangeAspect_eq hash k' k")
    case True
    then show ?thesis by (intro in_groupI [of k' "vs @ [v]"]) simp_all
  next
    case False
    with "2.IH" show ?thesis by (simp add: in_group_Cons)
  qed
qed

lemma in_group_dict_append_old:
  "in_group hash d a c \<Longrightarrow> in_group hash (dict_append hash d a' v) a c"
proof (induction hash d a' v rule: dict_append.induct)
  case (1 hash k v)
  then show ?case by (simp add: in_group_def)
next
  case (2 hash k' vs d k v)
  from "2.prems" obtain k0 cs where m: "(k0, cs) \<in> set ((k', vs) # d)"
    and e: "ChangeAspect_eq hash k0 a" and c: "c \<in> set cs"
    by (auto simp: in_group_def)
  show ?case
  proof (cases "(k0, cs) = (k', vs)")
    case True
    show ?thesis
    proof (cases "ChangeAspect_eq hash k' k")
      case True
      with \<open>(k0, cs) = (k', vs)\<close> e c show ?thesis
        by (intro in_groupI [of k' "vs @ [v]"]) simp_all
    next
      case False
      with \<open>(k0, cs) = (k', vs)\<close> e c show ?thesis
        by (intro in_groupI [of k' vs]) simp_all
    qed
  next
    case False
    with m e c have old: "in_group hash d a c" by (auto simp: in_group_def)
    show ?thesis
    proof (cases "ChangeAspect_eq hash k' k")
      case True
      with old show ?thesis by (simp add: in_group_Cons)
    next
      case False
      with "2.IH" old have "in_group hash (dict_append hash d k v) a c" by simp
      with False show ?thesis by (simp add: in_group_Cons)
    qed
  qed
qed

lemma in_group_foldl_old:
  "in_group hash d a c \<Longrightarrow>
     in_group hash (foldl (\<lambda>d' s. dict_append hash d' s v) d as) a c"
  by (induction as arbitrary: d) (auto intro: in_group_dict_append_old)

lemma in_group_foldl_new:
  "a \<in> set as \<Longrightarrow> in_group hash (foldl (\<lambda>d' s. dict_append hash d' s v) d as) a v"
  by (induction as arbitrary: d)
     (auto intro: in_group_foldl_old in_group_dict_append_new)

lemma in_group_group_change_old:
  "in_group hash d a c \<Longrightarrow> in_group hash (group_change hash d c') a c"
  by (simp add: group_change_def in_group_foldl_old)

lemma in_group_group_change_new:
  "a \<in> set (subsystems c) \<Longrightarrow> in_group hash (group_change hash d c) a c"
  by (simp add: group_change_def ticket_not_empty in_group_foldl_new)

lemma in_group_foldl_group_change_old:
  "in_group hash d a c \<Longrightarrow> in_group hash (foldl (group_change hash) d cs) a c"
  by (induction cs arbitrary: d) (auto intro: in_group_group_change_old)

lemma in_group_group_changes:
  "c \<in> set all_changes \<Longrightarrow> a \<in> set (subsystems c) \<Longrightarrow>
     in_group hash (group_changes hash all_changes) a c"
proof -
  have "c \<in> set cs \<Longrightarrow> a \<in> set (subsystems c) \<Longrightarrow>
          in_group hash (foldl (group_change hash) d cs) a c" for cs d
    by (induction cs arbitrary: d)
       (auto intro: in_group_foldl_group_change_old in_group_group_change_new)
  then show "c \<in> set all_changes \<Longrightarrow> a \<in> set (subsystems c) \<Longrightarrow>
     in_group hash (group_changes hash all_changes) a c"
    by (simp add: group_changes_def)
qed

text \<open>Every key of the groups is a subsystem aspect of some change.\<close>

lemma keys_dict_append: "fst ` set (dict_append hash d a v) \<subseteq> insert a (fst ` set d)"
  by (induction hash d a v rule: dict_append.induct) auto

lemma keys_foldl_dict_append:
  "fst ` set (foldl (\<lambda>d' s. dict_append hash d' s v) d as) \<subseteq> set as \<union> fst ` set d"
proof (induction as arbitrary: d)
  case Nil
  show ?case by simp
next
  case (Cons a as)
  from Cons.IH [of "dict_append hash d a v"] keys_dict_append [of hash d a v]
  show ?case by auto
qed

lemma keys_group_change:
  "fst ` set (group_change hash d c) \<subseteq> set (subsystems c) \<union> fst ` set d"
  using keys_foldl_dict_append [of hash c d "subsystems c"]
  by (auto simp: group_change_def)

lemma keys_foldl_group_change:
  "fst ` set (foldl (group_change hash) d cs) \<subseteq> (\<Union>c \<in> set cs. set (subsystems c)) \<union> fst ` set d"
proof (induction cs arbitrary: d)
  case Nil
  show ?case by simp
next
  case (Cons c cs)
  from Cons.IH [of "group_change hash d c"] keys_group_change [of hash d c]
  show ?case by auto
qed

lemma keys_group_changes:
  "(k, cs) \<in> set (group_changes hash all_changes) \<Longrightarrow>
     aspect_name k \<in> set (subsystem_names all_changes)"
proof -
  assume "(k, cs) \<in> set (group_changes hash all_changes)"
  then have "k \<in> fst ` set (foldl (group_change hash) [] all_changes)"
    by (force simp: group_changes_def)
  with keys_foldl_group_change [of hash "[]" all_changes]
  obtain c where "c \<in> set all_changes" "k \<in> set (subsystems c)" by auto
  then show ?thesis by (auto simp: subsystem_names_def)
qed

text \<open>What a completed report has printed for a group: its heading, then its changes.\<close>

lemma print_changes_extends:
  "print_changes fmt out cs = (out', e) \<Longrightarrow> \<exists>lines. out' = out @ lines"
proof (induction cs arbitrary: out)
  case Nil
  then show ?case by simp
next
  case (Cons c cs)
  show ?case
  proof (cases "Change_str fmt c")
    case (Inl err)
    with Cons.prems show ?thesis by simp
  next
    case (Inr line)
    with Cons.prems have "print_changes fmt (out @ [line]) cs = (out', e)" by simp
    from Cons.IH [OF this] show ?thesis by auto
  qed
qed

lemma print_changes_done:
  "print_changes fmt out cs = (out', None) \<Longrightarrow>
     \<exists>lines. out' = out @ lines \<and> list_all2 (\<lambda>x r. Change_str fmt x = Inr r) cs lines"
proof (induction cs arbitrary: out)
  case Nil
  then show ?case by simp
next
  case (Cons c cs)
  show ?case
  proof (cases "Change_str fmt c")
    case (Inl err)
    with Cons.prems show ?thesis by simp
  next
    case (Inr line)
    with Cons.prems have "print_changes fmt (out @ [line]) cs = (out', None)" by simp
    from Cons.IH [OF this] obtain lines where "out' = (out @ [line]) @ lines"
      and "list_all2 (\<lambda>x r. Change_str fmt x = Inr r) cs lines" by blast
    with Inr have "out' = out @ (line # lines) \<and>
        list_all2 (\<lambda>x r. Change_str fmt x = Inr r) (c # cs) (line # lines)" by simp
    then show ?thesis by blast
  qed
qed

lemma print_groups_extends:
  "print_groups fmt out d = (out', e) \<Longrightarrow> \<exists>lines. out' = out @ lines"
proof (induction d arbitrary: out)
  case Nil
  then show ?case by simp
next
  case (Cons kc d)
  obtain k cs where kc: "kc = (k, cs)" by (cases kc)
  obtain o1 e1 where p: "print_changes fmt (out @ [header (aspect_name k) 3]) cs = (o1, e1)"
    by (cases "print_changes fmt (out @ [header (aspect_name k) 3]) cs")
  from print_changes_extends [OF p] obtain l1 where o1: "o1 = (out @ [header (aspect_name k) 3]) @ l1"
    by blast
  show ?case
  proof (cases e1)
    case None
    with Cons.prems kc p have "print_groups fmt o1 d = (out', e)" by simp
    from Cons.IH [OF this] o1 show ?thesis by auto
  next
    case (Some err)
    with Cons.prems kc p o1 show ?thesis by auto
  qed
qed

lemma print_groups_done:
  "print_groups fmt out d = (out', None) \<Longrightarrow> (k, cs) \<in> set d \<Longrightarrow>
     \<exists>pre lines post. out' = out @ pre @ header (aspect_name k) 3 # lines @ post \<and>
        list_all2 (\<lambda>x r. Change_str fmt x = Inr r) cs lines"
proof (induction d arbitrary: out)
  case Nil
  then show ?case by simp
next
  case (Cons kc d)
  obtain k1 cs1 where kc: "kc = (k1, cs1)" by (cases kc)
  obtain o1 e1 where p: "print_changes fmt (out @ [header (aspect_name k1) 3]) cs1 = (o1, e1)"
    by (cases "print_changes fmt (out @ [header (aspect_name k1) 3]) cs1")
  from Cons.prems(1) kc p have e1: "e1 = None" and rest: "print_groups fmt o1 d = (out', None)"
    by (cases e1; simp)+
  from print_changes_done [OF p [unfolded e1]] obtain l1
    where o1: "o1 = (out @ [header (aspect_name k1) 3]) @ l1"
      and l1: "list_all2 (\<lambda>x r. Change_str fmt x = Inr r) cs1 l1" by blast
  show ?case
  proof (cases "(k, cs) = (k1, cs1)")
    case True
    from print_groups_extends [OF rest] obtain post where "out' = o1 @ post" by blast
    with o1 l1 True have "out' = out @ [] @ header (aspect_name k) 3 # l1 @ post \<and>
        list_all2 (\<lambda>x r. Change_str fmt x = Inr r) cs l1" by simp
    then show ?thesis by blast
  next
    case False
    with Cons.prems(2) kc have "(k, cs) \<in> set d" by auto
    from Cons.IH [OF rest this] obtain pre lines post
      where "out' = o1 @ pre @ header (aspect_name k) 3 # lines @ post"
        and ll: "list_all2 (\<lambda>x r. Change_str fmt x = Inr r) cs lines" by blast
    with o1 have "out' = out @ (header (aspect_name k1) 3 # l1 @ pre) @ header (aspect_name k) 3 # lines @ post"
      by simp
    with ll show ?thesis by blast
  qed
qed

lemma label_ChangeAspect_init [simp]: "label (ChangeAspect_init l) = l"
  by (simp add: ChangeAspect_init_def split: option.splits)

lemma report_changes_group:
  assumes "report_changes hash fmt all_changes = (out, None)"
    and "(k, cs) \<in> set (group_changes hash all_changes)"
  shows "printed_under fmt out (aspect_name k) cs"
proof -
  obtain o1 e1 where h: "print_changes fmt [header ''Highlights'' 1]
      (filter is_highlighted all_changes) = (o1, e1)"
    by (cases "print_changes fmt [header ''Highlights'' 1] (filter is_highlighted all_changes)")
  with assms(1) have "e1 = None"
    and g: "print_groups fmt (o1 @ [header ''Changes'' 1]) (group_changes hash all_changes)
              = (out, None)"
    by (cases e1; simp add: report_changes_def Let_def)+
  from print_groups_done [OF g assms(2)] obtain pre lines post
    where "out = (o1 @ [header ''Changes'' 1]) @ pre @ header (aspect_name k) 3 # lines @ post"
      and "list_all2 (\<lambda>x r. Change_str fmt x = Inr r) cs lines" by blast
  then have "out = o1 @ header ''Changes'' 1 # pre @ header (aspect_name k) 3 # lines @ post \<and>
      list_all2 (\<lambda>x r. Change_str fmt x = Inr r) cs lines" by simp
  then show ?thesis unfolding printed_under_def by blast
qed

lemma change_under_subsystem:
  assumes "report_changes hash fmt all_changes = (out, None)"
    and "c \<in> set all_changes" and "ticketdata c = Some t"
    and "l \<in> set (labels t)" and "str_contains ''[subsystem'' (description l)"
    and "inj_on hash (set (subsystem_names all_changes))"
  shows "\<exists>k cs. (k, cs) \<in> set (group_changes hash all_changes) \<and> aspect_name k = name l \<and>
           c \<in> set cs \<and> printed_under fmt out (name l) cs"
proof -
  let ?a = "ChangeAspect_init l"
  have a: "?a \<in> set (subsystems c)"
    using assms(3,4,5) by (simp add: subsystems_def)
  from in_group_group_changes [OF assms(2) a, of hash] obtain k cs
    where m: "(k, cs) \<in> set (group_changes hash all_changes)"
      and e: "ChangeAspect_eq hash k ?a" and c: "c \<in> set cs"
    by (auto simp: in_group_def)
  have "aspect_name k \<in> set (subsystem_names all_changes)"
    using m by (rule keys_group_changes)
  moreover have "aspect_name ?a \<in> set (subsystem_names all_changes)"
    using assms(2) a by (auto simp: subsystem_names_def)
  moreover have "hash (aspect_name k) = hash (aspect_name ?a)"
    using e by (simp add: ChangeAspect_eq_def ChangeAspect_hash_def aspect_name_def)
  ultimately have "aspect_name k = aspect_name ?a"
    using assms(6) by (auto dest: inj_onD)
  then have n: "aspect_name k = name l" by (simp add: aspect_name_def)
  from report_changes_group [OF assms(1) m] n have "printed_under fmt out (name l) cs" by simp
  with m n c show ?thesis by blast
qed

text \<open>
  C9. Groups are keyed by the hash of the label name. When the report completes and no two
  different subsystem label names of the log window have the same hash, a change with the
  subsystem labels \<open>l1\<close> and \<open>l2\<close> is a member of the group named after \<open>l1\<close> and of
  the group named after \<open>l2\<close>, and the Changes section prints each of the two headings
  followed by the renderings of that group's changes.
\<close>

theorem change_under_each_subsystem:
  assumes "report_changes hash fmt all_changes = (out, None)"
    and "c \<in> set all_changes" and "ticketdata c = Some t"
    and "l1 \<in> set (labels t)" and "str_contains ''[subsystem'' (description l1)"
    and "l2 \<in> set (labels t)" and "str_contains ''[subsystem'' (description l2)"
    and "inj_on hash (set (subsystem_names all_changes))"
  shows "(\<exists>k cs. (k, cs) \<in> set (group_changes hash all_changes) \<and> aspect_name k = name l1 \<and>
             c \<in> set cs \<and> printed_under fmt out (name l1) cs) \<and>
         (\<exists>k cs. (k, cs) \<in> set (group_changes hash all_changes) \<and> aspect_name k = name l2 \<and>
             c \<in> set cs \<and> printed_under fmt out (name l2) cs)"
  using change_under_subsystem [OF assms(1,2,3,4,5,8)]
        change_under_subsystem [OF assms(1,2,3,6,7,8)]
  by (rule conjI)

lemma ChangeAspect_init_plain:
  "ChangeAspect_init \<lparr>name = n, description = ''[subsystem]''\<rparr> =
     \<lparr>label = \<lparr>name = n, description = ''[subsystem]''\<rparr>, aspect_type = Some ''subsystem'',
      aspect_pattern = DefaultPattern\<rparr>"
  by (simp add: ChangeAspect_init_def aspect_match_plain_example numeral_2_eq_2)

lemma str_format_default:
  "str_format DefaultPattern [(''ticket'', ''#7''), (''url'', ''https://t/7''), (''title'', ''Fix the ribbon'')]
     = Inr ''- Resolved #7: Fix the ribbon''"
  by code_simp

lemma subsystems_two_label_change:
  "subsystems (two_label_change A B) =
     [ChangeAspect_init \<lparr>name = A, description = ''[subsystem]''\<rparr>,
      ChangeAspect_init \<lparr>name = B, description = ''[subsystem]''\<rparr>]"
  by (simp add: subsystems_def two_label_change_def)

lemma Change_str_two_label_change:
  "Change_str str_format (two_label_change A B) = Inr ''- Resolved #7: Fix the ribbon''"
proof -
  have "classes (two_label_change A B) = []"
    by (simp add: classes_def two_label_change_def)
  then show ?thesis
    using str_format_default
    by (simp add: Change_str_def ticket_def str_of_optional_def Change_url_def Change_title_def
          two_label_change_def)
qed

text \<open>
  A function from the strings into the 64-bit integers gives two different names the same
  hash.
\<close>

lemma hash_collision:
  fixes hash :: "string \<Rightarrow> 64 word"
  shows "\<exists>A B. A \<noteq> B \<and> A \<noteq> ''Highlight'' \<and> B \<noteq> ''Highlight'' \<and> hash A = hash B"
proof (rule ccontr)
  assume "\<not> ?thesis"
  then have "inj_on hash (UNIV - {''Highlight''})"
    by (auto simp: inj_on_def)
  moreover have "finite (hash ` (UNIV - {''Highlight''}))"
    by (rule finite_subset [of _ UNIV]) auto
  ultimately have "finite (UNIV - {''Highlight''} :: string set)"
    by (rule finite_imageD [rotated])
  then have "finite (UNIV :: string set)" by simp
  then show False using infinite_UNIV_listI by blast
qed

text \<open>
  Whatever the hash function is, there are two different names \<open>A\<close> and \<open>B\<close> for which
  the report of the one change labelled \<open>A\<close> and \<open>B\<close> has no group headed \<open>B\<close>: the
  change is printed twice under \<open>A\<close>.
\<close>

theorem colliding_names_counterexample:
  "\<forall>hash. \<exists>A B. A \<noteq> B \<and>
     report_changes hash str_format [two_label_change A B] =
       ([''# Highlights'', ''# Changes'', ''### '' @ A,
         ''- Resolved #7: Fix the ribbon'', ''- Resolved #7: Fix the ribbon''], None)"
proof
  fix hash :: "string \<Rightarrow> 64 word"
  from hash_collision [of hash] obtain A B where ab: "A \<noteq> B" "A \<noteq> ''Highlight''"
    "B \<noteq> ''Highlight''" "hash A = hash B" by blast
  have g: "group_changes hash [two_label_change A B] =
      [(ChangeAspect_init \<lparr>name = A, description = ''[subsystem]''\<rparr>,
        [two_label_change A B, two_label_change A B])]"
    using ab(4)
    by (simp add: group_changes_def group_change_def ticket_not_empty
          subsystems_two_label_change ChangeAspect_eq_def ChangeAspect_hash_def)
  have h: "\<not> is_highlighted (two_label_change A B)"
    using ab(2,3) by (auto simp: is_highlighted_def two_label_change_def)
  have "report_changes hash str_format [two_label_change A B] =
       ([''# Highlights'', ''# Changes'', ''### '' @ A,
         ''- Resolved #7: Fix the ribbon'', ''- Resolved #7: Fix the ribbon''], None)"
    by (simp add: report_changes_def g h Change_str_two_label_change header_def aspect_name_def
          numeral_3_eq_3)
  with ab(1) show "\<exists>A B. A \<noteq> B \<and>
     report_changes hash str_format [two_label_change A B] =
       ([''# Highlights'', ''# Changes'', ''### '' @ A,
         ''- Resolved #7: Fix the ribbon'', ''- Resolved #7: Fix the ribbon''], None)"
    by blast
qed

theorem change_under_each_subsystem_witness:
  "report_changes (\<lambda>s. of_nat (length s)) str_format [two_label_change ''Tools'' ''Runtime''] =
     ([''# Highlights'', ''# Changes'', ''### Tools'', ''- Resolved #7: Fix the ribbon'',
       ''### Runtime'', ''- Resolved #7: Fix the ribbon''], None) \<and>
   (\<exists>k cs. (k, cs) \<in> set (group_changes (\<lambda>s. of_nat (length s))
                           [two_label_change ''Tools'' ''Runtime'']) \<and>
      aspect_name k = ''Tools'' \<and> two_label_change ''Tools'' ''Runtime'' \<in> set cs \<and>
      printed_under str_format
        [''# Highlights'', ''# Changes'', ''### Tools'', ''- Resolved #7: Fix the ribbon'',
         ''### Runtime'', ''- Resolved #7: Fix the ribbon''] ''Tools'' cs) \<and>
   (\<exists>k cs. (k, cs) \<in> set (group_changes (\<lambda>s. of_nat (length s))
                           [two_label_change ''Tools'' ''Runtime'']) \<and>
      aspect_name k = ''Runtime'' \<and> two_label_change ''Tools'' ''Runtime'' \<in> set cs \<and>
      printed_under str_format
        [''# Highlights'', ''# Changes'', ''### Tools'', ''- Resolved #7: Fix the ribbon'',
         ''### Runtime'', ''- Resolved #7: Fix the ribbon''] ''Runtime'' cs)"
proof -
  let ?hash = "\<lambda>s :: string. of_nat (length s) :: 64 word"
  let ?c = "two_label_change ''Tools'' ''Runtime''"
  let ?t = "\<lparr>title = ''Fix the ribbon'', url = ''https://t/7'',
        labels = [\<lparr>name = ''Tools'', description = ''[subsystem]''\<rparr>,
                  \<lparr>name = ''Runtime'', description = ''[subsystem]''\<rparr>]\<rparr>"
  have g: "group_changes ?hash [?c] =
      [(ChangeAspect_init \<lparr>name = ''Tools'', description = ''[subsystem]''\<rparr>, [?c]),
       (ChangeAspect_init \<lparr>name = ''Runtime'', description = ''[subsystem]''\<rparr>, [?c])]"
    by (simp add: group_changes_def group_change_def ticket_not_empty
          subsystems_two_label_change ChangeAspect_eq_def ChangeAspect_hash_def)
  have h: "\<not> is_highlighted ?c"
    by (simp add: is_highlighted_def two_label_change_def)
  have r: "report_changes ?hash str_format [?c] =
     ([''# Highlights'', ''# Changes'', ''### Tools'', ''- Resolved #7: Fix the ribbon'',
       ''### Runtime'', ''- Resolved #7: Fix the ribbon''], None)"
    by (simp add: report_changes_def g h Change_str_two_label_change header_def aspect_name_def
          numeral_3_eq_3)
  have inj: "inj_on ?hash (set (subsystem_names [?c]))"
    by (simp add: subsystem_names_def subsystems_two_label_change aspect_name_def)
  have t: "ticketdata ?c = Some ?t"
    by (simp add: two_label_change_def)
  from change_under_each_subsystem
    [OF r _ t, of "\<lparr>name = ''Tools'', description = ''[subsystem]''\<rparr>"
                  "\<lparr>name = ''Runtime'', description = ''[subsystem]''\<rparr>", OF _ _ _ _ _ inj] r
  show ?thesis by simp
qed

subsection \<open>Changes without ticket data\<close>

text \<open>A completed report prints the highlighted changes and the groups, and nothing else.\<close>

lemma print_groups_blocks:
  "print_groups fmt out d = (out', None) \<Longrightarrow>
     \<exists>blocks. out' = out @ concat blocks \<and>
       list_all2 (\<lambda>(k, cs) b. \<exists>lines. b = header (aspect_name k) 3 # lines \<and>
                      list_all2 (\<lambda>x r. Change_str fmt x = Inr r) cs lines) d blocks"
proof (induction d arbitrary: out)
  case Nil
  then show ?case by simp
next
  case (Cons kc d)
  obtain k cs where kc: "kc = (k, cs)" by (cases kc)
  obtain o1 e1 where p: "print_changes fmt (out @ [header (aspect_name k) 3]) cs = (o1, e1)"
    by (cases "print_changes fmt (out @ [header (aspect_name k) 3]) cs")
  from Cons.prems kc p have e1: "e1 = None" and rest: "print_groups fmt o1 d = (out', None)"
    by (cases e1; simp)+
  from print_changes_done [OF p [unfolded e1]] obtain lines
    where o1: "o1 = (out @ [header (aspect_name k) 3]) @ lines"
      and l: "list_all2 (\<lambda>x r. Change_str fmt x = Inr r) cs lines" by blast
  from Cons.IH [OF rest] obtain blocks where b: "out' = o1 @ concat blocks"
    and bl: "list_all2 (\<lambda>(k, cs) b. \<exists>lines. b = header (aspect_name k) 3 # lines \<and>
                      list_all2 (\<lambda>x r. Change_str fmt x = Inr r) cs lines) d blocks" by blast
  let ?blocks = "(header (aspect_name k) 3 # lines) # blocks"
  have "out' = out @ concat ?blocks" using o1 b by simp
  moreover have "list_all2 (\<lambda>(k, cs) b. \<exists>lines. b = header (aspect_name k) 3 # lines \<and>
                      list_all2 (\<lambda>x r. Change_str fmt x = Inr r) cs lines) (kc # d) ?blocks"
    using kc l bl by simp
  ultimately show ?case by blast
qed

lemma report_changes_prints:
  assumes "report_changes hash fmt all_changes = (out, None)"
  shows "report_prints fmt out (filter is_highlighted all_changes) (group_changes hash all_changes)"
proof -
  obtain o1 e1 where h: "print_changes fmt [header ''Highlights'' 1]
      (filter is_highlighted all_changes) = (o1, e1)"
    by (cases "print_changes fmt [header ''Highlights'' 1] (filter is_highlighted all_changes)")
  with assms have e1: "e1 = None"
    and g: "print_groups fmt (o1 @ [header ''Changes'' 1]) (group_changes hash all_changes)
              = (out, None)"
    by (cases e1; simp add: report_changes_def Let_def)+
  from print_changes_done [OF h [unfolded e1]] obtain hl
    where o1: "o1 = [header ''Highlights'' 1] @ hl"
      and hl: "list_all2 (\<lambda>x r. Change_str fmt x = Inr r) (filter is_highlighted all_changes) hl"
    by blast
  from print_groups_blocks [OF g] obtain blocks
    where out: "out = (o1 @ [header ''Changes'' 1]) @ concat blocks"
      and bl: "list_all2 (\<lambda>(k, cs) b. \<exists>lines. b = header (aspect_name k) 3 # lines \<and>
                      list_all2 (\<lambda>x r. Change_str fmt x = Inr r) cs lines)
                 (group_changes hash all_changes) blocks" by blast
  from o1 out have "out = header ''Highlights'' 1 # hl @ header ''Changes'' 1 # concat blocks"
    by simp
  with hl bl show ?thesis unfolding report_prints_def by blast
qed

lemma foldl_removeAll:
  "(\<And>d. f d c = d) \<Longrightarrow> foldl f d (removeAll c xs) = foldl f d xs"
  by (induction xs arbitrary: d) auto

lemma filter_removeAll: "\<not> P c \<Longrightarrow> filter P (removeAll c xs) = filter P xs"
  by (induction xs) auto

lemma report_changes_removeAll:
  assumes "subsystems c = []" and "\<not> is_highlighted c"
  shows "report_changes hash fmt all_changes = report_changes hash fmt (removeAll c all_changes)"
proof -
  have "group_changes hash (removeAll c all_changes) = group_changes hash all_changes"
    unfolding group_changes_def
    by (rule foldl_removeAll) (simp add: group_change_no_subsystems assms(1))
  moreover have "filter is_highlighted (removeAll c all_changes) = filter is_highlighted all_changes"
    using assms(2) by (rule filter_removeAll)
  ultimately show ?thesis by (simp add: report_changes_def)
qed

text \<open>
  C10. A change constructed with fetching disabled, or from a subject in which no ticket
  id is found, has no ticket data: its subsystems and classes are empty and it is neither
  highlighted nor a priority. It is not among the highlighted changes and is a member of
  no subsystem group; a completed report prints the renderings of the highlighted changes
  under Highlights and of the members of the groups under Changes, and nothing else; and
  the report, completed or not, is the report of the log without the change, also when
  the changes are those parsed from the text of the log.
\<close>

theorem change_without_metadata:
  assumes "\<not> fetch_info \<or> find_ticket message = None"
  shows "\<exists>c. Change_init get_ticket chash message comments fetch_info = Inr c \<and>
              subsystems c = [] \<and> classes c = [] \<and>
              \<not> is_highlighted c \<and> \<not> is_priority c \<and>
              c \<notin> set (filter is_highlighted all_changes) \<and>
              (\<forall>(k, cs) \<in> set (group_changes hash all_changes). c \<notin> set cs) \<and>
              (\<forall>out. report_changes hash fmt all_changes = (out, None) \<longrightarrow>
                 report_prints fmt out (filter is_highlighted all_changes)
                   (group_changes hash all_changes)) \<and>
              report_changes hash fmt all_changes
                = report_changes hash fmt (removeAll c all_changes) \<and>
              (\<forall>gitlog_report. find_changes get_ticket gitlog_report True = Inr all_changes \<longrightarrow>
                 report_changelog get_ticket hash fmt gitlog_report
                   = report_changes hash fmt (removeAll c all_changes))"
proof -
  let ?c = "\<lparr>commit_hash = chash, commit_ticket = find_ticket message,
             commit_todos = find_todos comments, ticketdata = None\<rparr>"
  have "Change_init get_ticket chash message comments fetch_info = Inr ?c"
    using assms by (rule Change_init_no_metadata)
  moreover have s: "subsystems ?c = []"
    by (simp add: subsystems_def)
  moreover have "classes ?c = []"
    by (simp add: classes_def)
  moreover have h: "\<not> is_highlighted ?c"
    by (simp add: is_highlighted_def)
  moreover have "\<not> is_priority ?c"
    by (simp add: is_priority_def)
  moreover have "?c \<notin> set (filter is_highlighted all_changes)"
    using h by simp
  moreover have "\<forall>(k, cs) \<in> set (group_changes hash all_changes). ?c \<notin> set cs"
    using s by (rule not_grouped)
  moreover have "\<forall>out. report_changes hash fmt all_changes = (out, None) \<longrightarrow>
                 report_prints fmt out (filter is_highlighted all_changes)
                   (group_changes hash all_changes)"
    by (auto intro: report_changes_prints)
  moreover have rm: "report_changes hash fmt all_changes
                = report_changes hash fmt (removeAll ?c all_changes)"
    using s h by (rule report_changes_removeAll)
  moreover have "\<forall>gitlog_report. find_changes get_ticket gitlog_report True = Inr all_changes \<longrightarrow>
                 report_changelog get_ticket hash fmt gitlog_report
                   = report_changes hash fmt (removeAll ?c all_changes)"
    using rm by (simp add: report_changelog_def)
  ultimately show ?thesis by blast
qed

theorem change_without_metadata_witness:
  "Change_init (\<lambda>n. Inr (Some ribbon_ticket)) ''abc123'' ''fix #7 ribbon'' [] False
     = Inr unfetched_change \<and>
   report_changes (\<lambda>s. 0) str_format [unfetched_change, fetched_change] =
     ([''# Highlights'', ''- Resolved #7: Fix the ribbon'', ''# Changes'', ''### Tools'',
       ''- Resolved #7: Fix the ribbon''], None) \<and>
   report_prints str_format
     [''# Highlights'', ''- Resolved #7: Fix the ribbon'', ''# Changes'', ''### Tools'',
      ''- Resolved #7: Fix the ribbon'']
     (filter is_highlighted [unfetched_change, fetched_change])
     (group_changes (\<lambda>s. 0) [unfetched_change, fetched_change]) \<and>
   unfetched_change \<notin> set (filter is_highlighted [unfetched_change, fetched_change]) \<and>
   list_all (\<lambda>(k, cs). unfetched_change \<notin> set cs)
     (group_changes (\<lambda>s. 0) [unfetched_change, fetched_change]) \<and>
   report_changes (\<lambda>s. 0) str_format [unfetched_change, fetched_change]
     = report_changes (\<lambda>s. 0) str_format
         (removeAll unfetched_change [unfetched_change, fetched_change])"
proof -
  let ?get = "\<lambda>n :: string. Inr (Some ribbon_ticket) :: py_error + TicketInfo option"
  let ?all = "[unfetched_change, fetched_change]"
  have disabled: "\<not> False \<or> find_ticket ''fix #7 ribbon'' = None" by simp
  have init: "Change_init ?get ''abc123'' ''fix #7 ribbon'' [] False = Inr unfetched_change"
    by code_simp
  have r: "report_changes (\<lambda>s. 0) str_format ?all =
     ([''# Highlights'', ''- Resolved #7: Fix the ribbon'', ''# Changes'', ''### Tools'',
       ''- Resolved #7: Fix the ribbon''], None)"
    by code_simp
  from change_without_metadata
         [OF disabled, of ?get "''abc123''" "[]" ?all "\<lambda>s. 0" str_format]
  obtain c where c: "Change_init ?get ''abc123'' ''fix #7 ribbon'' [] False = Inr c"
    and nh: "c \<notin> set (filter is_highlighted ?all)"
    and ng: "\<forall>(k, cs) \<in> set (group_changes (\<lambda>s. 0) ?all). c \<notin> set cs"
    and pr: "\<forall>out. report_changes (\<lambda>s. 0) str_format ?all = (out, None) \<longrightarrow>
                 report_prints str_format out (filter is_highlighted ?all)
                   (group_changes (\<lambda>s. 0) ?all)"
    and rm: "report_changes (\<lambda>s. 0) str_format ?all
                = report_changes (\<lambda>s. 0) str_format (removeAll c ?all)"
    by blast
  from c init have eq: "c = unfetched_change" by simp
  from pr r have "report_prints str_format
     [''# Highlights'', ''- Resolved #7: Fix the ribbon'', ''# Changes'', ''### Tools'',
      ''- Resolved #7: Fix the ribbon'']
     (filter is_highlighted ?all) (group_changes (\<lambda>s. 0) ?all)" by blast
  moreover from ng eq
  have "list_all (\<lambda>(k, cs). unfetched_change \<notin> set cs) (group_changes (\<lambda>s. 0) ?all)"
    by (simp add: list_all_iff)
  moreover note init r nh [unfolded eq] rm [unfolded eq]
  ultimately show ?thesis by (intro conjI)
qed

end
